theory Spec2Isabelle
  imports Main "HOL-Library.Multiset" "HOL-Library.Sublist"
begin

section \<open>JavaScript values\<close>

text \<open>
  \<^verbatim>\<open>server.js\<close> reads \<^verbatim>\<open>data/input.json\<close>, groups its rows by \<^verbatim>\<open>userPhone\<close> and, for
  each group, creates a datastore and a search app, writes a JSONL file, uploads it,
  triggers an import and deletes the file.

  A value is what \<^verbatim>\<open>JSON.parse\<close> returns, plus \<^verbatim>\<open>undefined\<close> (the value of a missing
  property). An object is the list of its own properties, with distinct keys, in the
  order in which the engine enumerates them. Numbers are the integers that JavaScript
  prints in plain decimal digits; fractions and exponents are not modelled. A string is
  a list of code units below 256. The messages of the errors that the engine raises are
  worded as Node.js words them; no property below depends on the wording.
\<close>

datatype jsval =
    Undefined
  | Null
  | Bool bool
  | Num int
  | Str string
  | Arr "jsval list"
  | Obj "(string \<times> jsval) list"

text \<open>A thrown error: the engine's \<^verbatim>\<open>TypeError\<close>, or an \<^verbatim>\<open>Error\<close> (the class of
  \<^verbatim>\<open>new Error(text)\<close> and of the errors the libraries raise), each with its message.\<close>

datatype exn = TypeError string | Error string

fun message :: "exn \<Rightarrow> string" where
  "message (TypeError m) = m"
| "message (Error m) = m"

subsection \<open>Numbers and strings\<close>

definition digit_char :: "nat \<Rightarrow> char" where
  "digit_char d = char_of (48 + d)"

fun show_nat :: "nat \<Rightarrow> string" where
  "show_nat n = (if n < 10 then [digit_char n] else show_nat (n div 10) @ [digit_char (n mod 10)])"

declare show_nat.simps [simp del]

definition show_int :: "int \<Rightarrow> string" where
  "show_int i = (if i < 0 then CHR ''-'' # show_nat (nat (- i)) else show_nat (nat i))"

fun join :: "string \<Rightarrow> string list \<Rightarrow> string" where
  "join sep [] = []"
| "join sep [x] = x"
| "join sep (x # y # ys) = x @ sep @ join sep (y # ys)"

text \<open>\<^verbatim>\<open>ToString\<close> of a value, as a property key or a template part needs it. An array
  joins its elements with commas, \<^verbatim>\<open>null\<close> and \<^verbatim>\<open>undefined\<close> elements giving the empty
  string. A parsed object has no callable \<^verbatim>\<open>toString\<close> of its own: it inherits
  \<^verbatim>\<open>Object.prototype.toString\<close>, unless an own property of that name hides it, and
  then the conversion throws.\<close>

fun to_string :: "jsval \<Rightarrow> exn + string"
  and to_string_elems :: "jsval list \<Rightarrow> exn + string list" where
  "to_string Undefined = Inr ''undefined''"
| "to_string Null = Inr ''null''"
| "to_string (Bool b) = Inr (if b then ''true'' else ''false'')"
| "to_string (Num i) = Inr (show_int i)"
| "to_string (Str s) = Inr s"
| "to_string (Arr xs) =
     (case to_string_elems xs of Inl e \<Rightarrow> Inl e | Inr ss \<Rightarrow> Inr (join '','' ss))"
| "to_string (Obj kvs) =
     (if ''toString'' \<in> fst ` set kvs
      then Inl (TypeError ''Cannot convert object to primitive value'')
      else Inr ''[object Object]'')"
| "to_string_elems [] = Inr []"
| "to_string_elems (x # xs) =
     (case (if x = Undefined \<or> x = Null then Inr [] else to_string x) of
        Inl e \<Rightarrow> Inl e
      | Inr s \<Rightarrow>
          (case to_string_elems xs of Inl e \<Rightarrow> Inl e | Inr ss \<Rightarrow> Inr (s # ss)))"

text \<open>Reading the property \<open>name\<close> of a value, for a name that no built-in prototype
  defines and that is neither an index nor \<^verbatim>\<open>length\<close> (\<^verbatim>\<open>userPhone\<close>, \<^verbatim>\<open>timestamp\<close>,
  \<^verbatim>\<open>message\<close>): only an object can have it, and \<^verbatim>\<open>null\<close> and \<^verbatim>\<open>undefined\<close> throw.\<close>

fun get_prop :: "jsval \<Rightarrow> string \<Rightarrow> exn + jsval" where
  "get_prop (Obj kvs) name = Inr (case map_of kvs name of None \<Rightarrow> Undefined | Some v \<Rightarrow> v)"
| "get_prop Undefined name =
     Inl (TypeError (''Cannot read properties of undefined (reading ''
                       @ [CHR 0x27] @ name @ [CHR 0x27] @ '')''))"
| "get_prop Null name =
     Inl (TypeError (''Cannot read properties of null (reading ''
                       @ [CHR 0x27] @ name @ [CHR 0x27] @ '')''))"
| "get_prop v name = Inr Undefined"

subsection \<open>\<^verbatim>\<open>JSON.stringify\<close>\<close>

definition hex_char :: "nat \<Rightarrow> char" where
  "hex_char d = (if d < 10 then char_of (48 + d) else char_of (87 + d))"

text \<open>\<^verbatim>\<open>QuoteJSONString\<close>: the two-character escapes, \<^verbatim>\<open>\u00XX\<close> for the other control
  characters, every other code unit as it is.\<close>

definition quote_char :: "char \<Rightarrow> string" where
  "quote_char c =
     (let n = (of_char c :: nat) in
      if n = 8 then [CHR 0x5C, CHR ''b'']
      else if n = 9 then [CHR 0x5C, CHR ''t'']
      else if n = 10 then [CHR 0x5C, CHR ''n'']
      else if n = 12 then [CHR 0x5C, CHR ''f'']
      else if n = 13 then [CHR 0x5C, CHR ''r'']
      else if n = 34 then [CHR 0x5C, CHR 0x22]
      else if n = 92 then [CHR 0x5C, CHR 0x5C]
      else if n < 32
        then [CHR 0x5C, CHR ''u'', CHR ''0'', CHR ''0'', hex_char (n div 16), hex_char (n mod 16)]
      else [c])"

definition quote :: "string \<Rightarrow> string" where
  "quote s = [CHR 0x22] @ concat (map quote_char s) @ [CHR 0x22]"

text \<open>\<^verbatim>\<open>SerializeJSONProperty\<close> without indentation: \<open>None\<close> is \<^verbatim>\<open>undefined\<close>, which an
  object leaves out with its key and an array prints as \<^verbatim>\<open>null\<close>. No parsed value has a
  callable \<^verbatim>\<open>toJSON\<close>.\<close>

fun serialize :: "jsval \<Rightarrow> string option"
  and serialize_elems :: "jsval list \<Rightarrow> string list"
  and serialize_props :: "(string \<times> jsval) list \<Rightarrow> string list" where
  "serialize Undefined = None"
| "serialize Null = Some ''null''"
| "serialize (Bool b) = Some (if b then ''true'' else ''false'')"
| "serialize (Num i) = Some (show_int i)"
| "serialize (Str s) = Some (quote s)"
| "serialize (Arr xs) = Some (''['' @ join '','' (serialize_elems xs) @ '']'')"
| "serialize (Obj kvs) = Some (''{'' @ join '','' (serialize_props kvs) @ ''}'')"
| "serialize_elems [] = []"
| "serialize_elems (x # xs) =
     (case serialize x of None \<Rightarrow> ''null'' | Some s \<Rightarrow> s) # serialize_elems xs"
| "serialize_props [] = []"
| "serialize_props (kv # kvs) =
     (case serialize (snd kv) of
        None \<Rightarrow> serialize_props kvs
      | Some s \<Rightarrow> (quote (fst kv) @ '':'' @ s) # serialize_props kvs)"

text \<open>\<^verbatim>\<open>JSON.stringify(v)\<close> as an element of the array that \<^verbatim>\<open>join\<close> concatenates: for
  an object it is a string; where it is \<^verbatim>\<open>undefined\<close>, \<^verbatim>\<open>join\<close> prints nothing.\<close>

definition JSON_stringify :: "jsval \<Rightarrow> string" where
  "JSON_stringify v = (case serialize v of None \<Rightarrow> [] | Some s \<Rightarrow> s)"

section \<open>The program\<close>

subsection \<open>Document ids\<close>

text \<open>\<^verbatim>\<open>m.timestamp.replace(/[^a-zA-Z0-9_-]/g, "_")\<close>: every code unit outside the class
  becomes an underscore.\<close>

definition id_char :: "char \<Rightarrow> bool" where
  "id_char c =
     (let n = (of_char c :: nat) in
      (97 \<le> n \<and> n \<le> 122) \<or> (65 \<le> n \<and> n \<le> 90) \<or> (48 \<le> n \<and> n \<le> 57) \<or> n = 95 \<or> n = 45)"

definition sanitize :: "string \<Rightarrow> string" where
  "sanitize ts = map (\<lambda>c. if id_char c then c else CHR ''_'') ts"

subsection \<open>Plain objects used as dictionaries\<close>

text \<open>\<^verbatim>\<open>userGroups\<close> is a plain object \<^verbatim>\<open>{}\<close>: a list of own properties in insertion
  order, over \<^verbatim>\<open>Object.prototype\<close>. Reading a key finds an own property, or else one of
  the prototype's (a function, or the prototype itself for \<^verbatim>\<open>__proto__\<close>), or nothing.\<close>

type_synonym groups = "(string \<times> jsval list) list"

definition object_prototype_names :: "string list" where
  "object_prototype_names =
     [''constructor'', ''__defineGetter__'', ''__defineSetter__'', ''hasOwnProperty'',
      ''__lookupGetter__'', ''__lookupSetter__'', ''isPrototypeOf'', ''propertyIsEnumerable'',
      ''toString'', ''valueOf'', ''__proto__'', ''toLocaleString'']"

datatype 'a found = Own 'a | Inherited | Missing

definition lookup :: "(string \<times> 'a) list \<Rightarrow> string \<Rightarrow> 'a found" where
  "lookup obj k =
     (case map_of obj k of
        Some v \<Rightarrow> Own v
      | None \<Rightarrow> if k \<in> set object_prototype_names then Inherited else Missing)"

text \<open>Assigning an own property: an existing key keeps its place, a new key goes last.\<close>

fun set_own :: "string \<Rightarrow> 'a \<Rightarrow> (string \<times> 'a) list \<Rightarrow> (string \<times> 'a) list" where
  "set_own k v [] = [(k, v)]"
| "set_own k v (p # ps) = (if fst p = k then (k, v) # ps else p # set_own k v ps)"

text \<open>\<^verbatim>\<open>Object.keys\<close>: the own keys that are array indices (canonical decimal numerals
  below \<open>2\<^sup>3\<^sup>2 - 1\<close>) in ascending numeric order, then the other keys in insertion
  order.\<close>

definition is_digit :: "char \<Rightarrow> bool" where
  "is_digit c = (48 \<le> (of_char c :: nat) \<and> (of_char c :: nat) \<le> 57)"

definition dec_value :: "string \<Rightarrow> nat" where
  "dec_value s = foldl (\<lambda>a c. 10 * a + ((of_char c :: nat) - 48)) 0 s"

definition is_array_index :: "string \<Rightarrow> bool" where
  "is_array_index k =
     (k \<noteq> [] \<and> list_all is_digit k \<and> (length k = 1 \<or> hd k \<noteq> CHR ''0'') \<and>
      dec_value k < 4294967295)"

definition Object_keys :: "(string \<times> 'a) list \<Rightarrow> string list" where
  "Object_keys obj =
     sort_key dec_value (filter is_array_index (map fst obj))
       @ filter (\<lambda>k. \<not> is_array_index k) (map fst obj)"

subsection \<open>Grouping by \<^verbatim>\<open>userPhone\<close> (lines 96 to 100)\<close>

text \<open>The key of a row: \<^verbatim>\<open>row.userPhone\<close> converted to a property key.\<close>

definition row_key :: "jsval \<Rightarrow> exn + string" where
  "row_key row = (case get_prop row ''userPhone'' of Inl e \<Rightarrow> Inl e | Inr v \<Rightarrow> to_string v)"

text \<open>One turn of the loop. \<^verbatim>\<open>!userGroups[k]\<close> holds only for a key that is missing: an
  array and an inherited property are both truthy. \<^verbatim>\<open>push\<close> exists on an own array
  only.\<close>

definition group_row :: "groups \<Rightarrow> jsval \<Rightarrow> exn + groups" where
  "group_row userGroups row =
     (case row_key row of
        Inl e \<Rightarrow> Inl e
      | Inr k \<Rightarrow>
          (let g = (if lookup userGroups k = Missing then set_own k [] userGroups else userGroups)
           in case lookup g k of
                Own rs \<Rightarrow> Inr (set_own k (rs @ [row]) g)
              | _ \<Rightarrow> Inl (TypeError ''userGroups[row.userPhone].push is not a function'')))"

fun group_rows :: "groups \<Rightarrow> jsval list \<Rightarrow> exn + groups" where
  "group_rows userGroups [] = Inr userGroups"
| "group_rows userGroups (row # rows) =
     (case group_row userGroups row of
        Inl e \<Rightarrow> Inl e
      | Inr g \<Rightarrow> group_rows g rows)"

text \<open>\<^verbatim>\<open>for (const row of rawData)\<close>: an array gives its elements, a string its
  characters, nothing else is iterable.\<close>

fun iterate :: "jsval \<Rightarrow> exn + jsval list" where
  "iterate (Arr xs) = Inr xs"
| "iterate (Str s) = Inr (map (\<lambda>c. Str [c]) s)"
| "iterate v = Inl (TypeError ''rawData is not iterable'')"

subsection \<open>Staged documents (lines 115 to 117)\<close>

text \<open>The object literal of the \<^verbatim>\<open>map\<close> callback. \<^verbatim>\<open>replace\<close> is a method of strings
  only; on \<^verbatim>\<open>undefined\<close> and \<^verbatim>\<open>null\<close> reading it throws, on any other value calling it
  throws.\<close>

definition staged_doc :: "jsval \<Rightarrow> exn + jsval" where
  "staged_doc m =
     (case get_prop m ''timestamp'' of
        Inl e \<Rightarrow> Inl e
      | Inr t \<Rightarrow>
          (case t of
             Str ts \<Rightarrow>
               (case get_prop m ''message'' of
                  Inl e \<Rightarrow> Inl e
                | Inr msg \<Rightarrow>
                    Inr (Obj [(''id'', Str (sanitize ts)), (''content'', msg), (''structData'', m)]))
           | Undefined \<Rightarrow> get_prop t ''replace''
           | Null \<Rightarrow> get_prop t ''replace''
           | _ \<Rightarrow> Inl (TypeError ''m.timestamp.replace is not a function'')))"

fun staged_lines :: "jsval list \<Rightarrow> exn + string list" where
  "staged_lines [] = Inr []"
| "staged_lines (m # ms) =
     (case staged_doc m of
        Inl e \<Rightarrow> Inl e
      | Inr d \<Rightarrow>
          (case staged_lines ms of
             Inl e \<Rightarrow> Inl e
           | Inr ls \<Rightarrow> Inr (JSON_stringify d # ls)))"

definition jsonlContent :: "jsval list \<Rightarrow> exn + string" where
  "jsonlContent ms =
     (case staged_lines ms of
        Inl e \<Rightarrow> Inl e
      | Inr ls \<Rightarrow> Inr (join [CHR 0x0A] ls @ [CHR 0x0A]))"

subsection \<open>The outside world\<close>

text \<open>A call that leaves the process: the token request, the three requests to the
  Discovery Engine (token, ids and locator as the request carries them), the upload to the
  bucket (local path, destination), and the two file operations on the staged file.\<close>

datatype call =
    GetToken
  | CreateDataStore string string
  | CreateSearchApp string string string
  | WriteFile string string
  | Upload string string
  | ImportData string string string
  | Unlink string

text \<open>An event is a call with how it ended: \<open>None\<close> when it returned, the error when it
  threw (for a request, also when the response was not \<^verbatim>\<open>ok\<close>).\<close>

type_synonym event = "call \<times> exn option"

text \<open>The environment decides every outcome from the history of the process so far. It
  also gives the clock (the value of the \<open>n\<close>-th \<^verbatim>\<open>Date.now()\<close>) and
  \<^verbatim>\<open>path.join(os.tmpdir(), name)\<close>.\<close>

record env =
  now :: "nat \<Rightarrow> nat"
  token :: "event list \<Rightarrow> exn + string"
  outcome :: "event list \<Rightarrow> call \<Rightarrow> exn option"
  tmp_file :: "string \<Rightarrow> string"

text \<open>The state of the process and its disk: the events so far, the local files, the
  module-level \<^verbatim>\<open>userDatastores\<close>, and how often the clock was read.\<close>

record state =
  trace :: "event list"
  files :: "string \<rightharpoonup> string"
  userDatastores :: "string \<rightharpoonup> string \<times> string"
  ticks :: nat

definition BUCKET :: string where
  "BUCKET = ''vertex-ai-search-bucket-123''"

fun effect :: "call \<Rightarrow> state \<Rightarrow> state" where
  "effect (WriteFile p d) s = s\<lparr>files := (files s)(p \<mapsto> d)\<rparr>"
| "effect (Unlink p) s = s\<lparr>files := (files s)(p := None)\<rparr>"
| "effect c s = s"

definition perform :: "env \<Rightarrow> call \<Rightarrow> state \<Rightarrow> (exn + unit) \<times> state" where
  "perform E c s =
     (let r = outcome E (trace s) c;
          s' = s\<lparr>trace := trace s @ [(c, r)]\<rparr>
      in case r of Some e \<Rightarrow> (Inl e, s') | None \<Rightarrow> (Inr (), effect c s'))"

definition Date_now :: "env \<Rightarrow> state \<Rightarrow> nat \<times> state" where
  "Date_now E s = (now E (ticks s), s\<lparr>ticks := Suc (ticks s)\<rparr>)"

definition getToken :: "env \<Rightarrow> state \<Rightarrow> (exn + string) \<times> state" where
  "getToken E s =
     (let r = token E (trace s)
      in (r, s\<lparr>trace := trace s @ [(GetToken, case r of Inl e \<Rightarrow> Some e | Inr t \<Rightarrow> None)]\<rparr>))"

definition createDataStore :: "env \<Rightarrow> string \<Rightarrow> string \<Rightarrow> state \<Rightarrow> (exn + unit) \<times> state" where
  "createDataStore E tok datastoreId s = perform E (CreateDataStore tok datastoreId) s"

definition createSearchApp ::
  "env \<Rightarrow> string \<Rightarrow> string \<Rightarrow> string \<Rightarrow> state \<Rightarrow> (exn + unit) \<times> state" where
  "createSearchApp E tok searchAppId datastoreId s =
     perform E (CreateSearchApp tok searchAppId datastoreId) s"

definition uploadFileToGCS ::
  "env \<Rightarrow> string \<Rightarrow> string \<Rightarrow> string \<Rightarrow> state \<Rightarrow> (exn + string) \<times> state" where
  "uploadFileToGCS E localPath destFileName pref s =
     (let gcsDest = pref @ ''/'' @ destFileName
      in case perform E (Upload localPath gcsDest) s of
           (Inl e, s') \<Rightarrow> (Inl e, s')
         | (Inr u, s') \<Rightarrow> (Inr (''gs://'' @ BUCKET @ ''/'' @ gcsDest), s'))"

definition importData :: "env \<Rightarrow> string \<Rightarrow> string \<Rightarrow> string \<Rightarrow> state \<Rightarrow> (exn + unit) \<times> state" where
  "importData E tok datastoreId gcsPath s = perform E (ImportData tok datastoreId gcsPath) s"

subsection \<open>The pipeline (lines 92 to 128)\<close>

text \<open>\<^verbatim>\<open>userGroups[userPhone]\<close> in the second loop, and the \<^verbatim>\<open>map\<close> over it.\<close>

definition group_content :: "groups \<Rightarrow> string \<Rightarrow> exn + string" where
  "group_content userGroups userPhone =
     (case lookup userGroups userPhone of
        Own ms \<Rightarrow> jsonlContent ms
      | Inherited \<Rightarrow> Inl (TypeError ''userGroups[userPhone].map is not a function'')
      | Missing \<Rightarrow>
          Inl (TypeError (''Cannot read properties of undefined (reading ''
                            @ [CHR 0x27] @ ''map'' @ [CHR 0x27] @ '')'')))"

definition datastore_id :: "string \<Rightarrow> nat \<Rightarrow> string" where
  "datastore_id userPhone t = ''datastore-'' @ userPhone @ ''-'' @ show_nat t"

definition searchapp_id :: "string \<Rightarrow> nat \<Rightarrow> string" where
  "searchapp_id userPhone t = ''searchapp-'' @ userPhone @ ''-'' @ show_nat t"

text \<open>The body of the loop over \<^verbatim>\<open>Object.keys(userGroups)\<close> (lines 105 to 126).\<close>

definition tenant_step ::
  "env \<Rightarrow> string \<Rightarrow> groups \<Rightarrow> string \<Rightarrow> state \<Rightarrow> (exn + unit) \<times> state" where
  "tenant_step E tok userGroups userPhone s =
     (case Date_now E s of (t1, s1) \<Rightarrow>
      case Date_now E s1 of (t2, s2) \<Rightarrow>
      let datastoreId = datastore_id userPhone t1;
          searchAppId = searchapp_id userPhone t2
      in
      case createDataStore E tok datastoreId s2 of
        (Inl e, s3) \<Rightarrow> (Inl e, s3)
      | (Inr u, s3) \<Rightarrow>
      case createSearchApp E tok searchAppId datastoreId s3 of
        (Inl e, s4) \<Rightarrow> (Inl e, s4)
      | (Inr u, s4) \<Rightarrow>
      let s5 = s4\<lparr>userDatastores :=
                     (userDatastores s4)(userPhone \<mapsto> (datastoreId, searchAppId))\<rparr>;
          userFilePath = tmp_file E (userPhone @ ''-messages.jsonl'')
      in
      case group_content userGroups userPhone of
        Inl e \<Rightarrow> (Inl e, s5)
      | Inr content \<Rightarrow>
      case perform E (WriteFile userFilePath content) s5 of
        (Inl e, s6) \<Rightarrow> (Inl e, s6)
      | (Inr u, s6) \<Rightarrow>
      case uploadFileToGCS E userFilePath ''messages.jsonl'' userPhone s6 of
        (Inl e, s7) \<Rightarrow> (Inl e, s7)
      | (Inr gcsPath, s7) \<Rightarrow>
      case importData E tok datastoreId gcsPath s7 of
        (Inl e, s8) \<Rightarrow> (Inl e, s8)
      | (Inr u, s8) \<Rightarrow> perform E (Unlink userFilePath) s8)"

fun run_tenants ::
  "env \<Rightarrow> string \<Rightarrow> groups \<Rightarrow> string list \<Rightarrow> state \<Rightarrow> (exn + unit) \<times> state" where
  "run_tenants E tok userGroups [] s = (Inr (), s)"
| "run_tenants E tok userGroups (userPhone # rest) s =
     (case tenant_step E tok userGroups userPhone s of
        (Inl e, s') \<Rightarrow> (Inl e, s')
      | (Inr u, s') \<Rightarrow> run_tenants E tok userGroups rest s')"

text \<open>\<^verbatim>\<open>processInputFile\<close>. \<open>inputFile\<close> is the outcome of reading and parsing the
  file: the parsed value, or the error of \<^verbatim>\<open>readFileSync\<close> or \<^verbatim>\<open>JSON.parse\<close>.\<close>

definition processInputFile :: "env \<Rightarrow> exn + jsval \<Rightarrow> state \<Rightarrow> (exn + unit) \<times> state" where
  "processInputFile E inputFile s =
     (case inputFile of
        Inl e \<Rightarrow> (Inl e, s)
      | Inr rawData \<Rightarrow>
      case iterate rawData of
        Inl e \<Rightarrow> (Inl e, s)
      | Inr rows \<Rightarrow>
      case group_rows [] rows of
        Inl e \<Rightarrow> (Inl e, s)
      | Inr userGroups \<Rightarrow>
      case getToken E s of
        (Inl e, s1) \<Rightarrow> (Inl e, s1)
      | (Inr tok, s1) \<Rightarrow> run_tenants E tok userGroups (Object_keys userGroups) s1)"

subsection \<open>The handler of \<^verbatim>\<open>POST /api/process\<close> (lines 131 to 139)\<close>

record response =
  status :: nat
  body :: jsval

definition api_process :: "env \<Rightarrow> exn + jsval \<Rightarrow> state \<Rightarrow> response \<times> state" where
  "api_process E inputFile s =
     (case processInputFile E inputFile s of
        (Inr u, s') \<Rightarrow>
          (\<lparr>status = 200,
            body = Obj [(''success'', Bool True), (''message'', Str ''Processed all users!'')]\<rparr>, s')
      | (Inl err, s') \<Rightarrow>
          (\<lparr>status = 500, body = Obj [(''error'', Str (message err))]\<rparr>, s'))"

section \<open>Vocabulary of the properties\<close>

text \<open>The lines of a text, as \<^verbatim>\<open>split("\n")\<close> gives them: a text that ends in a newline
  has an empty last line.\<close>

fun split_lines :: "string \<Rightarrow> string list" where
  "split_lines [] = [[]]"
| "split_lines (c # cs) =
     (if c = CHR 0x0A then [] # split_lines cs
      else (case split_lines cs of [] \<Rightarrow> [[c]] | l # ls \<Rightarrow> (c # l) # ls))"

text \<open>The distinct elements of a list, in the order of their first occurrence.\<close>

fun first_seen :: "'a list \<Rightarrow> 'a list" where
  "first_seen [] = []"
| "first_seen (x # xs) = x # removeAll x (first_seen xs)"

text \<open>A list of events is sequenced when every request for a search app comes after a
  successful creation of the datastore it names, with the same token, and every import
  request comes after a successful creation of its datastore and, later, of a search app
  on that datastore.\<close>

definition sequenced :: "event list \<Rightarrow> bool" where
  "sequenced evs \<longleftrightarrow>
     (\<forall>j<length evs. \<forall>tok d.
        (\<forall>a r. evs ! j = (CreateSearchApp tok a d, r) \<longrightarrow>
           (\<exists>i<j. evs ! i = (CreateDataStore tok d, None))) \<and>
        (\<forall>u r. evs ! j = (ImportData tok d u, r) \<longrightarrow>
           (\<exists>i i' a. i < i' \<and> i' < j \<and> evs ! i = (CreateDataStore tok d, None) \<and>
              evs ! i' = (CreateSearchApp tok a d, None))))"

text \<open>What a call is and what it is aimed at, without the token and the payload.\<close>

fun brief :: "call \<Rightarrow> string \<times> string" where
  "brief GetToken = (''getToken'', [])"
| "brief (CreateDataStore tok d) = (''createDataStore'', d)"
| "brief (CreateSearchApp tok a d) = (''createSearchApp'', a)"
| "brief (WriteFile p c) = (''writeFileSync'', p)"
| "brief (Upload p g) = (''upload'', g)"
| "brief (ImportData tok d u) = (''importData'', d)"
| "brief (Unlink p) = (''unlinkSync'', p)"

definition briefly :: "event list \<Rightarrow> ((string \<times> string) \<times> exn option) list" where
  "briefly evs = map (\<lambda>ev. (brief (fst ev), snd ev)) evs"

text \<open>The characters of the class \<^verbatim>\<open>[A-Za-z0-9_-]\<close>, written out.\<close>

definition id_chars :: string where
  "id_chars = ''abcdefghijklmnopqrstuvwxyzABCDEFGHIJKLMNOPQRSTUVWXYZ0123456789_-''"

text \<open>A text between double quotes, and the texts that JSON writes between double
  quotes as they are: no control character, no double quote, no backslash.\<close>

definition quoted :: "string \<Rightarrow> string" where
  "quoted s = [CHR 0x22] @ s @ [CHR 0x22]"

definition plain :: "string \<Rightarrow> bool" where
  "plain s = list_all (\<lambda>c. 32 \<le> (of_char c :: nat) \<and> c \<noteq> CHR 0x22 \<and> c \<noteq> CHR 0x5C) s"

text \<open>The text of an object whose fields are all strings that need no escape, between
  its braces: \<^verbatim>\<open>"key":"text"\<close> for each field, with commas between.\<close>

fun text_fields :: "(string \<times> string) list \<Rightarrow> string" where
  "text_fields [] = []"
| "text_fields [(k, t)] = quoted k @ '':'' @ quoted t"
| "text_fields ((k, t) # f # fs) = quoted k @ '':'' @ quoted t @ '','' @ text_fields (f # fs)"

subsection \<open>Sample environments and inputs\<close>

text \<open>An environment in which every call succeeds, the clock counts its readings and
  the temporary directory is \<^verbatim>\<open>/tmp\<close>; one in which the calls picked by \<open>bad\<close> are
  refused; a process that has done nothing yet; a well-formed input row.\<close>

definition all_ok :: env where
  "all_ok = \<lparr>now = (\<lambda>n. n), token = (\<lambda>h. Inr ''tok''), outcome = (\<lambda>h c. None),
             tmp_file = (\<lambda>name. ''/tmp/'' @ name)\<rparr>"

definition refuses :: "(call \<Rightarrow> bool) \<Rightarrow> env" where
  "refuses bad = all_ok\<lparr>outcome := (\<lambda>h c. if bad c then Some (Error ''refused'') else None)\<rparr>"

definition fresh :: state where
  "fresh = \<lparr>trace = [], files = Map.empty, userDatastores = Map.empty, ticks = 0\<rparr>"

definition msg_row :: "string \<Rightarrow> string \<Rightarrow> string \<Rightarrow> jsval" where
  "msg_row userPhone ts m =
     Obj [(''userPhone'', Str userPhone), (''timestamp'', Str ts), (''message'', Str m)]"

definition one_tenant :: "jsval list" where
  "one_tenant = [msg_row ''A'' ''t1'' ''hi'']"

definition three_tenants :: "jsval list" where
  "three_tenants =
     [msg_row ''A'' ''t1'' ''hi'', msg_row ''B'' ''t2'' ''yo'', msg_row ''C'' ''t3'' ''hey'']"

text \<open>A record whose timestamp is a string.\<close>

definition has_string_timestamp :: "jsval \<Rightarrow> bool" where
  "has_string_timestamp row =
     (case get_prop row ''timestamp'' of Inr (Str ts) \<Rightarrow> True | _ \<Rightarrow> False)"

definition no_timestamp :: "jsval list" where
  "no_timestamp =
     [msg_row ''A'' ''t1'' ''hi'', Obj [(''userPhone'', Str ''B''), (''message'', Str ''yo'')]]"

fun is_CreateDataStore :: "call \<Rightarrow> bool" where
  "is_CreateDataStore (CreateDataStore tok d) = True"
| "is_CreateDataStore c = False"

fun is_Upload :: "call \<Rightarrow> bool" where
  "is_Upload (Upload p g) = True"
| "is_Upload c = False"


text \<open>An environment in which no token is granted; and one in which the upload for
  tenant \<open>k\<close> fails with a message that names its destination, as the messages of a
  storage service do.\<close>

definition token_denied :: env where
  "token_denied = all_ok\<lparr>token := (\<lambda>h. Inl (Error ''denied''))\<rparr>"

definition upload_fails_for :: "string \<Rightarrow> env" where
  "upload_fails_for k =
     all_ok\<lparr>outcome := (\<lambda>h c. if is_Upload c \<and> snd (brief c) = k @ ''/messages.jsonl''
                             then Some (Error (''upload to '' @ snd (brief c) @ '' failed''))
                             else None)\<rparr>"

text \<open>A response mentions the number \<open>n\<close> when the decimal numeral of \<open>n\<close> occurs somewhere
  in its serialized body.\<close>

definition mentions_count :: "response \<Rightarrow> nat \<Rightarrow> bool" where
  "mentions_count resp n = sublist (show_nat n) (JSON_stringify (body resp))"

definition numbered_tenants :: "jsval list" where
  "numbered_tenants = [msg_row ''2'' ''t1'' ''hi'', msg_row ''1'' ''t2'' ''yo'']"

definition mixed_tenants :: "jsval list" where
  "mixed_tenants =
     [msg_row ''b'' ''t1'' ''m'', msg_row ''10'' ''t2'' ''m'', msg_row ''a'' ''t3'' ''m'',
      msg_row ''9'' ''t4'' ''m'', msg_row ''b'' ''t5'' ''m'']"

definition rich_rows :: "jsval list" where
  "rich_rows =
     [msg_row ''A'' ''1:2'' ''hi'',
      msg_row ''B'' ''t2'' ''yo'',
      Obj [(''userPhone'', Str ''A''), (''timestamp'', Str ''a.Z-_ 9''), (''n'', Num 12),
           (''tags'', Arr [Null, Bool True, Str [CHR ''x'', CHR 0x0A]])]]"

section \<open>Serialized documents hold no raw newline\<close>

lemma split_lines_nonempty: "split_lines s \<noteq> []"
  by (induction s) (auto split: list.splits)

lemma split_lines_line:
  "CHR 0x0A \<notin> set l \<Longrightarrow> split_lines (l @ CHR 0x0A # rest) = l # split_lines rest"
  by (induction l) auto

lemma split_lines_joined:
  "\<forall>l \<in> set ls. CHR 0x0A \<notin> set l \<Longrightarrow> ls \<noteq> [] \<Longrightarrow>
   split_lines (join [CHR 0x0A] ls @ [CHR 0x0A]) = ls @ [[]]"
proof (induction ls rule: induct_list012)
  case 1 then show ?case by simp
next
  case (2 x) then show ?case using split_lines_line[of x "[]"] by simp
next
  case (3 x y ys)
  then show ?case using split_lines_line[of x "join [CHR 0x0A] (y # ys) @ [CHR 0x0A]"] by simp
qed

lemma char_of_neq_nl: "n mod 256 \<noteq> 10 \<Longrightarrow> char_of (n::nat) \<noteq> CHR 0x0A"
proof
  assume a: "n mod 256 \<noteq> 10" and b: "char_of n = CHR 0x0A"
  from b have "(of_char (char_of n) :: nat) = of_char (CHR 0x0A)" by simp
  then show False using a by simp
qed

lemma digit_char_neq_nl: "d < 10 \<Longrightarrow> digit_char d \<noteq> CHR 0x0A"
  unfolding digit_char_def by (rule char_of_neq_nl) simp

lemma hex_char_neq_nl: "d < 16 \<Longrightarrow> hex_char d \<noteq> CHR 0x0A"
  unfolding hex_char_def by (auto intro!: char_of_neq_nl)

lemma show_nat_no_nl: "CHR 0x0A \<notin> set (show_nat n)"
proof (induction n rule: show_nat.induct)
  case (1 n)
  show ?case
  proof (cases "n < 10")
    case True then show ?thesis using digit_char_neq_nl[of n] by (subst show_nat.simps) auto
  next
    case False
    then show ?thesis using 1 digit_char_neq_nl[of "n mod 10"] by (subst show_nat.simps) auto
  qed
qed

lemma show_int_no_nl: "CHR 0x0A \<notin> set (show_int i)"
  by (simp add: show_int_def show_nat_no_nl)

lemma quote_char_no_nl: "CHR 0x0A \<notin> set (quote_char c)"
proof -
  have "of_char c \<noteq> (10::nat) \<Longrightarrow> c \<noteq> CHR 0x0A" by auto
  moreover have "(of_char c :: nat) < 32 \<Longrightarrow> hex_char (of_char c div 16) \<noteq> CHR 0x0A \<and> hex_char (of_char c mod 16) \<noteq> CHR 0x0A"
    by (auto intro!: hex_char_neq_nl)
  ultimately show ?thesis
    unfolding quote_char_def Let_def by auto
qed

lemma quote_no_nl: "CHR 0x0A \<notin> set (quote s)"
  by (auto simp: quote_def quote_char_no_nl)

lemma join_no_nl: "c \<notin> set sep \<Longrightarrow> \<forall>s \<in> set ss. c \<notin> set s \<Longrightarrow> c \<notin> set (join sep ss)"
  by (induction sep ss rule: join.induct) auto

lemma serialize_no_nl:
  "(\<forall>s. serialize v = Some s \<longrightarrow> CHR 0x0A \<notin> set s)"
  "(\<forall>s \<in> set (serialize_elems vs). CHR 0x0A \<notin> set s)"
  "(\<forall>s \<in> set (serialize_props kvs). CHR 0x0A \<notin> set s)"
proof (induction v and vs and kvs rule: serialize_serialize_elems_serialize_props.induct)
  case (6 xs)
  then show ?case using join_no_nl[of "CHR 0x0A" "'',''" "serialize_elems xs"] by simp
next
  case (7 kvs)
  then show ?case using join_no_nl[of "CHR 0x0A" "'',''" "serialize_props kvs"] by simp
qed (auto simp: show_int_no_nl quote_no_nl split: option.splits)

lemma JSON_stringify_no_nl: "CHR 0x0A \<notin> set (JSON_stringify v)"
  using serialize_no_nl(1)[of v] by (auto simp: JSON_stringify_def split: option.splits)

section \<open>Grouping, row by row\<close>

lemma map_fst_set_own:
  "map fst (set_own k v obj) = (if k \<in> fst ` set obj then map fst obj else map fst obj @ [k])"
  by (induction obj) auto

lemma map_of_set_own: "map_of (set_own k v obj) = (map_of obj)(k \<mapsto> v)"
  by (induction obj) (auto simp: fun_eq_iff)

lemma keys_set_own: "fst ` set (set_own k v obj) = insert k (fst ` set obj)"
  by (induction obj) auto

lemma lookup_Own: "lookup obj k = Own v \<longleftrightarrow> map_of obj k = Some v"
  by (auto simp: lookup_def split: option.splits)

lemma lookup_Missing:
  "lookup obj k = Missing \<longleftrightarrow> map_of obj k = None \<and> k \<notin> set object_prototype_names"
  by (auto simp: lookup_def split: option.splits)

lemma map_of_None_iff: "map_of obj k = None \<longleftrightarrow> k \<notin> fst ` set obj"
  by (simp add: map_of_eq_None_iff)

lemma group_row_Inr:
  assumes "group_row g row = Inr g'"
  obtains k where "row_key row = Inr k"
    "k \<in> fst ` set g \<or> k \<notin> set object_prototype_names"
    "map fst g' = (if k \<in> fst ` set g then map fst g else map fst g @ [k])"
    "map_of g' = (map_of g)(k \<mapsto> (case map_of g k of None \<Rightarrow> [] | Some ms \<Rightarrow> ms) @ [row])"
proof -
  from assms obtain k where k: "row_key row = Inr k"
    by (auto simp: group_row_def split: sum.splits)
  show thesis
  proof (cases "map_of g k")
    case None
    with assms k have np: "k \<notin> set object_prototype_names"
      by (auto simp: group_row_def lookup_def Let_def map_of_set_own split: if_splits)
    with assms k None have "g' = set_own k [row] (set_own k [] g)"
      by (auto simp: group_row_def lookup_def Let_def map_of_set_own)
    moreover from None have "k \<notin> fst ` set g" by (simp add: map_of_None_iff)
    ultimately show thesis using None np k
      by (intro that[of k]) (simp_all add: map_fst_set_own map_of_set_own keys_set_own)
  next
    case (Some ms)
    with assms k have "g' = set_own k (ms @ [row]) g"
      by (auto simp: group_row_def lookup_def Let_def)
    moreover from Some have "k \<in> fst ` set g" by (metis map_of_None_iff option.distinct(1))
    ultimately show thesis using Some k
      by (intro that[of k]) (auto simp: map_fst_set_own map_of_set_own)
  qed
qed

lemma filter_removeAll_in: "k \<in> A \<Longrightarrow> filter (\<lambda>x. x \<notin> A) (removeAll k xs) = filter (\<lambda>x. x \<notin> A) xs"
  by (induction xs) auto

lemma filter_removeAll_out:
  "filter (\<lambda>x. x \<notin> A) (removeAll k xs) = filter (\<lambda>x. x \<notin> insert k A) xs"
  by (induction xs) auto

lemma group_rows_keys:
  "group_rows g rows = Inr g' \<Longrightarrow>
   \<exists>ks. map row_key rows = map Inr ks \<and>
        map fst g' = map fst g @ filter (\<lambda>k. k \<notin> fst ` set g) (first_seen ks)"
proof (induction rows arbitrary: g)
  case Nil
  then show ?case by simp
next
  case (Cons row rows)
  from Cons.prems obtain g1 where g1: "group_row g row = Inr g1" and rest: "group_rows g1 rows = Inr g'"
    by (auto split: sum.splits)
  from g1 obtain k where k: "row_key row = Inr k"
    and keys1: "map fst g1 = (if k \<in> fst ` set g then map fst g else map fst g @ [k])"
    by (rule group_row_Inr)
  from Cons.IH[OF rest] obtain ks where ks: "map row_key rows = map Inr ks"
    and keys': "map fst g' = map fst g1 @ filter (\<lambda>k. k \<notin> fst ` set g1) (first_seen ks)"
    by blast
  have "map fst g' = map fst g @ filter (\<lambda>k. k \<notin> fst ` set g) (first_seen (k # ks))"
  proof (cases "k \<in> fst ` set g")
    case True
    with keys1 have "map fst g1 = map fst g" by simp
    moreover from this have "fst ` set g1 = fst ` set g" by (metis list.set_map)
    ultimately show ?thesis using keys' True by (simp add: filter_removeAll_in)
  next
    case False
    with keys1 have "map fst g1 = map fst g @ [k]" by simp
    moreover from this have "fst ` set g1 = insert k (fst ` set g)"
      by (metis list.set_map set_append list.simps(15) empty_set Un_insert_right sup_bot.right_neutral)
    ultimately show ?thesis using keys' False by (simp add: filter_removeAll_out)
  qed
  with k ks show ?case by (intro exI[of _ "k # ks"]) simp
qed

lemma group_rows_map_of:
  "group_rows g rows = Inr g' \<Longrightarrow>
   map_of g' k =
     (let new = filter (\<lambda>r. row_key r = Inr k) rows
      in case map_of g k of
           Some ms \<Rightarrow> Some (ms @ new)
         | None \<Rightarrow> if new = [] then None else Some new)"
proof (induction rows arbitrary: g)
  case Nil
  then show ?case by (simp split: option.splits)
next
  case (Cons row rows)
  from Cons.prems obtain g1 where g1: "group_row g row = Inr g1" and rest: "group_rows g1 rows = Inr g'"
    by (auto split: sum.splits)
  from g1 obtain k1 where k1: "row_key row = Inr k1"
    and m1: "map_of g1 = (map_of g)(k1 \<mapsto> (case map_of g k1 of None \<Rightarrow> [] | Some ms \<Rightarrow> ms) @ [row])"
    by (rule group_row_Inr)
  show ?case
    using Cons.IH[OF rest] k1 m1 by (auto simp: Let_def split: option.splits)
qed

lemma group_rows_succeeds:
  "\<forall>r \<in> set rows. \<exists>k. row_key r = Inr k \<and> k \<notin> set object_prototype_names \<Longrightarrow>
   \<exists>g'. group_rows g rows = Inr g'"
proof (induction rows arbitrary: g)
  case Nil
  then show ?case by simp
next
  case (Cons row rows)
  then obtain k where k: "row_key row = Inr k" "k \<notin> set object_prototype_names" by auto
  then have "\<exists>g1. group_row g row = Inr g1"
    by (auto simp: group_row_def lookup_def Let_def map_of_set_own split: option.splits)
  then obtain g1 where "group_row g row = Inr g1" ..
  with Cons show ?case by simp
qed

lemma set_Object_keys: "set (Object_keys obj) = fst ` set obj"
  by (auto simp: Object_keys_def)

section \<open>One tenant's step, case by case\<close>

lemma perform_Inl:
  "perform E c s = (Inl e, s') \<longleftrightarrow>
     outcome E (trace s) c = Some e \<and> s' = s\<lparr>trace := trace s @ [(c, Some e)]\<rparr>"
  by (auto simp: perform_def Let_def split: option.splits)

lemma perform_Inr:
  "perform E c s = (Inr u, s') \<longleftrightarrow>
     outcome E (trace s) c = None \<and> s' = effect c (s\<lparr>trace := trace s @ [(c, None)]\<rparr>)"
  by (auto simp: perform_def Let_def split: option.splits)

lemma tenant_step_cases:
  assumes step: "tenant_step E tok g k s = (r, s')"
  defines "d \<equiv> datastore_id k (now E (ticks s))"
  defines "a \<equiv> searchapp_id k (now E (Suc (ticks s)))"
  defines "p \<equiv> tmp_file E (k @ ''-messages.jsonl'')"
  defines "u \<equiv> ''gs://'' @ BUCKET @ ''/'' @ k @ ''/messages.jsonl''"
  defines "reg \<equiv> (userDatastores s)(k \<mapsto> (d, a))"
  obtains
    (datastore_fails) e where "r = Inl e"
      "s' = s\<lparr>trace := trace s @ [(CreateDataStore tok d, Some e)], ticks := ticks s + 2\<rparr>"
  | (searchapp_fails) e where "r = Inl e"
      "s' = s\<lparr>trace := trace s @ [(CreateDataStore tok d, None), (CreateSearchApp tok a d, Some e)],
               ticks := ticks s + 2\<rparr>"
  | (content_fails) e where "r = Inl e" "group_content g k = Inl e"
      "s' = s\<lparr>trace := trace s @ [(CreateDataStore tok d, None), (CreateSearchApp tok a d, None)],
               userDatastores := reg, ticks := ticks s + 2\<rparr>"
  | (write_fails) c e where "r = Inl e" "group_content g k = Inr c"
      "s' = s\<lparr>trace := trace s @ [(CreateDataStore tok d, None), (CreateSearchApp tok a d, None),
                 (WriteFile p c, Some e)],
               userDatastores := reg, ticks := ticks s + 2\<rparr>"
  | (upload_fails) c e where "r = Inl e" "group_content g k = Inr c"
      "s' = s\<lparr>trace := trace s @ [(CreateDataStore tok d, None), (CreateSearchApp tok a d, None),
                 (WriteFile p c, None), (Upload p (k @ ''/messages.jsonl''), Some e)],
               files := (files s)(p \<mapsto> c), userDatastores := reg, ticks := ticks s + 2\<rparr>"
  | (import_fails) c e where "r = Inl e" "group_content g k = Inr c"
      "s' = s\<lparr>trace := trace s @ [(CreateDataStore tok d, None), (CreateSearchApp tok a d, None),
                 (WriteFile p c, None), (Upload p (k @ ''/messages.jsonl''), None),
                 (ImportData tok d u, Some e)],
               files := (files s)(p \<mapsto> c), userDatastores := reg, ticks := ticks s + 2\<rparr>"
  | (unlink_fails) c e where "r = Inl e" "group_content g k = Inr c"
      "s' = s\<lparr>trace := trace s @ [(CreateDataStore tok d, None), (CreateSearchApp tok a d, None),
                 (WriteFile p c, None), (Upload p (k @ ''/messages.jsonl''), None),
                 (ImportData tok d u, None), (Unlink p, Some e)],
               files := (files s)(p \<mapsto> c), userDatastores := reg, ticks := ticks s + 2\<rparr>"
  | (completes) c where "r = Inr ()" "group_content g k = Inr c"
      "s' = s\<lparr>trace := trace s @ [(CreateDataStore tok d, None), (CreateSearchApp tok a d, None),
                 (WriteFile p c, None), (Upload p (k @ ''/messages.jsonl''), None),
                 (ImportData tok d u, None), (Unlink p, None)],
               files := (files s)(p := None), userDatastores := reg, ticks := ticks s + 2\<rparr>"
proof -
  let ?tr = "trace s"
  let ?e1 = "(CreateDataStore tok d, None)"
  let ?e2 = "(CreateSearchApp tok a d, None)"
  let ?e3 = "\<lambda>c. (WriteFile p c, None)"
  let ?e4 = "(Upload p (k @ ''/messages.jsonl''), None)"
  let ?e5 = "(ImportData tok d u, None)"
  note defs = tenant_step_def createDataStore_def createSearchApp_def importData_def
    uploadFileToGCS_def Date_now_def Let_def perform_def d_def a_def p_def u_def reg_def
  show thesis
  proof (cases "outcome E ?tr (CreateDataStore tok d)")
    case (Some e)
    then have "tenant_step E tok g k s =
      (Inl e, s\<lparr>trace := ?tr @ [(CreateDataStore tok d, Some e)], ticks := ticks s + 2\<rparr>)"
      by (simp add: defs)
    with step show thesis by (intro datastore_fails) auto
  next
    case o1: None
    show thesis
    proof (cases "outcome E (?tr @ [?e1]) (CreateSearchApp tok a d)")
      case (Some e)
      with o1 have "tenant_step E tok g k s =
        (Inl e, s\<lparr>trace := ?tr @ [?e1, (CreateSearchApp tok a d, Some e)], ticks := ticks s + 2\<rparr>)"
        by (simp add: defs)
      with step show thesis by (intro searchapp_fails) auto
    next
      case o2: None
      show thesis
      proof (cases "group_content g k")
        case (Inl e)
        with o1 o2 have "tenant_step E tok g k s =
          (Inl e, s\<lparr>trace := ?tr @ [?e1, ?e2], userDatastores := reg, ticks := ticks s + 2\<rparr>)"
          by (simp add: defs)
        with step Inl show thesis by (intro content_fails) auto
      next
        case c: (Inr c)
        show thesis
        proof (cases "outcome E (?tr @ [?e1, ?e2]) (WriteFile p c)")
          case (Some e)
          with o1 o2 c have "tenant_step E tok g k s =
            (Inl e, s\<lparr>trace := ?tr @ [?e1, ?e2, (WriteFile p c, Some e)],
                       userDatastores := reg, ticks := ticks s + 2\<rparr>)"
            by (simp add: defs)
          with step c show thesis by (intro write_fails) auto
        next
          case o3: None
          show thesis
          proof (cases "outcome E (?tr @ [?e1, ?e2, ?e3 c]) (Upload p (k @ ''/messages.jsonl''))")
            case (Some e)
            with o1 o2 c o3 have "tenant_step E tok g k s =
              (Inl e, s\<lparr>trace := ?tr @ [?e1, ?e2, ?e3 c, (Upload p (k @ ''/messages.jsonl''), Some e)],
                         files := (files s)(p \<mapsto> c), userDatastores := reg, ticks := ticks s + 2\<rparr>)"
              by (simp add: defs)
            with step c show thesis by (intro upload_fails) auto
          next
            case o4: None
            show thesis
            proof (cases "outcome E (?tr @ [?e1, ?e2, ?e3 c, ?e4]) (ImportData tok d u)")
              case (Some e)
              with o1 o2 c o3 o4 have "tenant_step E tok g k s =
                (Inl e, s\<lparr>trace := ?tr @ [?e1, ?e2, ?e3 c, ?e4, (ImportData tok d u, Some e)],
                           files := (files s)(p \<mapsto> c), userDatastores := reg, ticks := ticks s + 2\<rparr>)"
                by (simp add: defs)
              with step c show thesis by (intro import_fails) auto
            next
              case o5: None
              show thesis
              proof (cases "outcome E (?tr @ [?e1, ?e2, ?e3 c, ?e4, ?e5]) (Unlink p)")
                case (Some e)
                with o1 o2 c o3 o4 o5 have "tenant_step E tok g k s =
                  (Inl e, s\<lparr>trace := ?tr @ [?e1, ?e2, ?e3 c, ?e4, ?e5, (Unlink p, Some e)],
                             files := (files s)(p \<mapsto> c), userDatastores := reg, ticks := ticks s + 2\<rparr>)"
                  by (simp add: defs)
                with step c show thesis by (intro unlink_fails) auto
              next
                case o6: None
                with o1 o2 c o3 o4 o5 have "tenant_step E tok g k s =
                  (Inr (), s\<lparr>trace := ?tr @ [?e1, ?e2, ?e3 c, ?e4, ?e5, (Unlink p, None)],
                             files := (files s)(p := None), userDatastores := reg, ticks := ticks s + 2\<rparr>)"
                  by (simp add: defs)
                with step c show thesis by (intro completes) auto
              qed
            qed
          qed
        qed
      qed
    qed
  qed
qed

section \<open>Sequenced traces\<close>

lemma sequenced_Nil: "sequenced []"
  by (simp add: sequenced_def)

lemma sequenced_app:
  "sequenced evs \<Longrightarrow> j < length evs \<Longrightarrow> evs ! j = (CreateSearchApp tok a d, r) \<Longrightarrow>
   \<exists>i<j. evs ! i = (CreateDataStore tok d, None)"
  unfolding sequenced_def by blast

lemma sequenced_import:
  "sequenced evs \<Longrightarrow> j < length evs \<Longrightarrow> evs ! j = (ImportData tok d u, r) \<Longrightarrow>
   \<exists>i i' a. i < i' \<and> i' < j \<and> evs ! i = (CreateDataStore tok d, None) \<and>
      evs ! i' = (CreateSearchApp tok a d, None)"
  unfolding sequenced_def by blast

lemma sequenced_append:
  assumes xs: "sequenced xs" and ys: "sequenced ys"
  shows "sequenced (xs @ ys)"
  unfolding sequenced_def
proof (intro allI impI conjI)
  fix j tok d a r
  assume j: "j < length (xs @ ys)" and ev: "(xs @ ys) ! j = (CreateSearchApp tok a d, r)"
  show "\<exists>i<j. (xs @ ys) ! i = (CreateDataStore tok d, None)"
  proof (cases "j < length xs")
    case True
    with ev have "xs ! j = (CreateSearchApp tok a d, r)" by (simp add: nth_append)
    from sequenced_app[OF xs True this]
    obtain i where "i < j" "xs ! i = (CreateDataStore tok d, None)" by blast
    with True show ?thesis by (intro exI[of _ i]) (simp add: nth_append)
  next
    case False
    with j ev have "j - length xs < length ys" "ys ! (j - length xs) = (CreateSearchApp tok a d, r)"
      by (auto simp: nth_append)
    from sequenced_app[OF ys this]
    obtain i where "i < j - length xs" "ys ! i = (CreateDataStore tok d, None)" by blast
    with False show ?thesis by (intro exI[of _ "length xs + i"]) (auto simp: nth_append)
  qed
next
  fix j tok d u r
  assume j: "j < length (xs @ ys)" and ev: "(xs @ ys) ! j = (ImportData tok d u, r)"
  show "\<exists>i i' a. i < i' \<and> i' < j \<and> (xs @ ys) ! i = (CreateDataStore tok d, None) \<and>
          (xs @ ys) ! i' = (CreateSearchApp tok a d, None)"
  proof (cases "j < length xs")
    case True
    with ev have "xs ! j = (ImportData tok d u, r)" by (simp add: nth_append)
    from sequenced_import[OF xs True this]
    obtain i i' a where "i < i'" "i' < j" "xs ! i = (CreateDataStore tok d, None)"
        "xs ! i' = (CreateSearchApp tok a d, None)" by blast
    with True show ?thesis
      by (intro exI[of _ i] exI[of _ i'] exI[of _ a]) (simp add: nth_append)
  next
    case False
    with j ev have "j - length xs < length ys" "ys ! (j - length xs) = (ImportData tok d u, r)"
      by (auto simp: nth_append)
    from sequenced_import[OF ys this]
    obtain i i' a where "i < i'" "i' < j - length xs"
        "ys ! i = (CreateDataStore tok d, None)" "ys ! i' = (CreateSearchApp tok a d, None)" by blast
    with False show ?thesis
      by (intro exI[of _ "length xs + i"] exI[of _ "length xs + i'"] exI[of _ a]) (auto simp: nth_append)
  qed
qed

lemma sequenced_step:
  "sequenced [(CreateDataStore tok d, r1)]"
  "sequenced [(CreateDataStore tok d, None), (CreateSearchApp tok a d, r2)]"
  "sequenced [(CreateDataStore tok d, None), (CreateSearchApp tok a d, None), (WriteFile p c, r3)]"
  "sequenced [(CreateDataStore tok d, None), (CreateSearchApp tok a d, None), (WriteFile p c, None),
     (Upload p g, r4)]"
  "sequenced [(CreateDataStore tok d, None), (CreateSearchApp tok a d, None), (WriteFile p c, None),
     (Upload p g, None), (ImportData tok d u, r5)]"
  "sequenced [(CreateDataStore tok d, None), (CreateSearchApp tok a d, None), (WriteFile p c, None),
     (Upload p g, None), (ImportData tok d u, None), (Unlink p, r6)]"
  unfolding sequenced_def
  by (auto simp: nth_Cons' less_Suc_eq_0_disj intro: exI[of _ 0] exI[of _ 1])

lemma sequenced_GetToken: "sequenced [(GetToken, r)]"
  by (simp add: sequenced_def)

lemma failed_call_fails_step:
  assumes "tenant_step E tok g k s = (r, s')"
    and "(c, Some e) \<in> set (drop (length (trace s)) (trace s'))"
  shows "r = Inl e"
  using assms by (cases rule: tenant_step_cases) auto

lemma tenant_step_sequenced:
  assumes "tenant_step E tok g k s = (r, s')"
  shows "\<exists>evs. trace s' = trace s @ evs \<and> sequenced evs"
  using assms by (cases rule: tenant_step_cases) (auto simp: sequenced_step)

section \<open>The loop over the tenants\<close>

lemma run_tenants_append:
  "run_tenants E tok g (ks1 @ ks2) s =
     (case run_tenants E tok g ks1 s of
        (Inl e, s') \<Rightarrow> (Inl e, s')
      | (Inr u, s') \<Rightarrow> run_tenants E tok g ks2 s')"
  by (induction ks1 arbitrary: s) (auto split: prod.splits sum.splits)

lemma run_tenants_sequenced:
  "run_tenants E tok g ks s = (r, s') \<Longrightarrow> \<exists>evs. trace s' = trace s @ evs \<and> sequenced evs"
proof (induction ks arbitrary: s)
  case Nil
  then show ?case by (simp add: sequenced_Nil)
next
  case (Cons k ks)
  obtain r1 s1 where step: "tenant_step E tok g k s = (r1, s1)" by (cases "tenant_step E tok g k s")
  from tenant_step_sequenced[OF step] obtain evs1 where
    e1: "trace s1 = trace s @ evs1" "sequenced evs1" by blast
  show ?case
  proof (cases r1)
    case (Inl e)
    with Cons.prems step have "s' = s1" by simp
    with e1 show ?thesis by blast
  next
    case (Inr u)
    with Cons.prems step have "run_tenants E tok g ks s1 = (r, s')" by simp
    from Cons.IH[OF this] obtain evs2 where "trace s' = trace s1 @ evs2" "sequenced evs2" by blast
    with e1 show ?thesis by (intro exI[of _ "evs1 @ evs2"]) (simp add: sequenced_append)
  qed
qed

section \<open>Lines of the staged text\<close>

lemma staged_doc_Inr:
  assumes "staged_doc m = Inr d"
  obtains ts msg where "get_prop m ''timestamp'' = Inr (Str ts)" "get_prop m ''message'' = Inr msg"
    "d = Obj [(''id'', Str (sanitize ts)), (''content'', msg), (''structData'', m)]"
  using assms by (auto simp: staged_doc_def split: sum.splits jsval.splits)

lemma staged_doc_Inl: "staged_doc m = Inl e \<Longrightarrow> \<exists>msg. e = TypeError msg"
  by (cases m) (auto simp: staged_doc_def split: sum.splits jsval.splits option.splits)

lemma staged_doc_string_timestamp:
  assumes "get_prop m ''timestamp'' = Inr (Str ts)"
  shows "\<exists>msg. staged_doc m =
           Inr (Obj [(''id'', Str (sanitize ts)), (''content'', msg), (''structData'', m)])"
  using assms by (cases m) (auto simp: staged_doc_def split: option.splits)

lemma staged_lines_Inr:
  "staged_lines ms = Inr ls \<Longrightarrow>
   length ls = length ms \<and>
   (\<forall>i<length ms. \<exists>ts msg. get_prop (ms ! i) ''timestamp'' = Inr (Str ts) \<and>
      get_prop (ms ! i) ''message'' = Inr msg \<and>
      ls ! i = JSON_stringify (Obj [(''id'', Str (sanitize ts)), (''content'', msg), (''structData'', ms ! i)]))"
proof (induction ms arbitrary: ls)
  case Nil
  then show ?case by simp
next
  case (Cons m ms)
  from Cons.prems obtain d ls' where d: "staged_doc m = Inr d" and ls': "staged_lines ms = Inr ls'"
    and ls: "ls = JSON_stringify d # ls'"
    by (auto split: sum.splits)
  from d obtain ts msg where "get_prop m ''timestamp'' = Inr (Str ts)" "get_prop m ''message'' = Inr msg"
    "d = Obj [(''id'', Str (sanitize ts)), (''content'', msg), (''structData'', m)]"
    by (rule staged_doc_Inr)
  with Cons.IH[OF ls'] ls show ?case
    by (auto simp: nth_Cons split: nat.splits)
qed

lemma staged_lines_Inl: "staged_lines ms = Inl e \<Longrightarrow> \<exists>msg. e = TypeError msg"
  by (induction ms) (auto split: sum.splits dest: staged_doc_Inl)

lemma staged_lines_no_nl: "staged_lines ms = Inr ls \<Longrightarrow> \<forall>l \<in> set ls. CHR 0x0A \<notin> set l"
  by (induction ms arbitrary: ls) (auto split: sum.splits simp: JSON_stringify_no_nl)

lemma staged_lines_bad:
  assumes "m \<in> set ms" and "\<forall>ts. get_prop m ''timestamp'' \<noteq> Inr (Str ts)"
  shows "\<exists>msg. staged_lines ms = Inl (TypeError msg)"
proof (cases "staged_lines ms")
  case (Inl e)
  then show ?thesis using staged_lines_Inl by blast
next
  case (Inr ls)
  from assms(1) obtain i where "i < length ms" "ms ! i = m" by (auto simp: in_set_conv_nth)
  with staged_lines_Inr[OF Inr] assms(2) show ?thesis by auto
qed

lemma staged_lines_good:
  "\<forall>m \<in> set ms. \<exists>ts. get_prop m ''timestamp'' = Inr (Str ts) \<Longrightarrow> \<exists>ls. staged_lines ms = Inr ls"
proof (induction ms)
  case Nil
  then show ?case by simp
next
  case (Cons m ms)
  then obtain ts where "get_prop m ''timestamp'' = Inr (Str ts)" by auto
  from staged_doc_string_timestamp[OF this] obtain d where "staged_doc m = Inr d" by blast
  with Cons show ?case by auto
qed

lemma jsonlContent_lines:
  assumes "jsonlContent ms = Inr content"
  shows "\<exists>lines. staged_lines ms = Inr lines \<and> content = join [CHR 0x0A] lines @ [CHR 0x0A] \<and>
    length lines = length ms \<and> (\<forall>l \<in> set lines. CHR 0x0A \<notin> set l) \<and>
    (ms \<noteq> [] \<longrightarrow> split_lines content = lines @ [[]])"
proof -
  from assms obtain lines where l: "staged_lines ms = Inr lines"
    and c: "content = join [CHR 0x0A] lines @ [CHR 0x0A]"
    by (auto simp: jsonlContent_def split: sum.splits)
  have len: "length lines = length ms" using staged_lines_Inr[OF l] by simp
  have nl: "\<forall>l \<in> set lines. CHR 0x0A \<notin> set l" by (rule staged_lines_no_nl[OF l])
  have "ms \<noteq> [] \<longrightarrow> split_lines content = lines @ [[]]"
  proof
    assume "ms \<noteq> []"
    with len have "lines \<noteq> []" by auto
    with nl c show "split_lines content = lines @ [[]]" by (simp add: split_lines_joined)
  qed
  with l c len nl show ?thesis by blast
qed

lemma group_rows_lookup:
  assumes "group_rows [] rows = Inr g" and "lookup g k = Own ms"
  shows "ms = filter (\<lambda>row. row_key row = Inr k) rows" and "ms \<noteq> []"
  using group_rows_map_of[OF assms(1), of k] assms(2)
  by (auto simp: lookup_Own Let_def split: if_splits)

lemma step_write_event:
  assumes "tenant_step E tok g k s = (r, s')"
    and "(WriteFile p content, w) \<in> set (drop (length (trace s)) (trace s'))"
  shows "group_content g k = Inr content" and "p = tmp_file E (k @ ''-messages.jsonl'')"
  using assms by (cases rule: tenant_step_cases; simp)+

lemma has_string_timestamp_iff:
  "has_string_timestamp row \<longleftrightarrow> (\<exists>ts. get_prop row ''timestamp'' = Inr (Str ts))"
  by (auto simp: has_string_timestamp_def split: sum.splits jsval.splits)

lemma Object_keys_own:
  assumes "k \<in> set (Object_keys g)"
  shows "\<exists>ms. lookup g k = Own ms"
proof -
  from assms have "k \<in> fst ` set g" by (simp add: set_Object_keys)
  then have "map_of g k \<noteq> None" by (simp add: map_of_None_iff)
  then show ?thesis by (auto simp: lookup_Own)
qed

section \<open>The text of a staged line\<close>

lemma id_chars_id_char: "c \<in> set id_chars \<Longrightarrow> id_char c"
  by (auto simp: id_chars_def id_char_def)

lemma char_eq_of_char: "(of_char c :: nat) = of_char d \<Longrightarrow> c = d"
  by (metis char_of_char)

lemma class_codes:
  "{97..122} \<union> {65..90} \<union> {48..57} \<union> {95, 45} = ((of_char ` set id_chars) :: nat set)"
  unfolding atLeastAtMost_upt id_chars_def
  by (simp add: upt_rec_numeral) blast

lemma id_char_id_chars:
  assumes "id_char c"
  shows "c \<in> set id_chars"
proof -
  let ?n = "of_char c :: nat"
  from assms have "?n \<in> {97..122} \<union> {65..90} \<union> {48..57} \<union> {95, 45}"
    by (auto simp: id_char_def Let_def)
  then have "?n \<in> (of_char :: char \<Rightarrow> nat) ` set id_chars"
    unfolding class_codes .
  then obtain d where "d \<in> set id_chars" "?n = of_char d" by blast
  then show ?thesis using char_eq_of_char[of c d] by simp
qed

lemma id_char_iff: "id_char c \<longleftrightarrow> c \<in> set id_chars"
  using id_chars_id_char id_char_id_chars by blast

lemma quote_char_plain:
  assumes "32 \<le> (of_char c :: nat)" "c \<noteq> CHR 0x22" "c \<noteq> CHR 0x5C"
  shows "quote_char c = [c]"
proof -
  have "(of_char c :: nat) \<noteq> 34" using assms(2) char_eq_of_char[of c "CHR 0x22"] by auto
  moreover have "(of_char c :: nat) \<noteq> 92" using assms(3) char_eq_of_char[of c "CHR 0x5C"] by auto
  ultimately show ?thesis using assms(1) by (simp add: quote_char_def Let_def)
qed

lemma quote_plain: "plain s \<Longrightarrow> quote s = quoted s"
proof -
  assume "plain s"
  then have "concat (map quote_char s) = s"
    by (induction s) (auto simp: plain_def quote_char_plain)
  then show ?thesis by (simp add: quote_def quoted_def)
qed

lemma plain_sanitize: "plain (sanitize ts)"
proof -
  have "32 \<le> (of_char c :: nat) \<and> c \<noteq> CHR 0x22 \<and> c \<noteq> CHR 0x5C" if "id_char c" for c
    using that by (auto simp: id_char_def Let_def)
  then show ?thesis
    by (auto simp: plain_def sanitize_def list_all_iff)
qed

lemma sanitize_chars:
  "length (sanitize ts) = length ts \<and>
   (\<forall>j<length ts. sanitize ts ! j = (if ts ! j \<in> set id_chars then ts ! j else CHR ''_''))"
  by (simp add: sanitize_def id_char_iff)

lemma serialize_record:
  assumes "get_prop m ''timestamp'' = Inr (Str ts)"
  shows "\<exists>whole. serialize m = Some whole"
  using assms by (cases m) auto

lemma staged_line_shape:
  assumes ts: "get_prop m ''timestamp'' = Inr (Str ts)"
    and msg: "get_prop m ''message'' = Inr msg"
    and rec: "serialize m = Some whole"
  shows "\<exists>part.
     ((msg = Undefined \<longrightarrow> part = []) \<and>
      (\<forall>text. msg = Str text \<and> plain text \<longrightarrow>
         part = quoted ''content'' @ '':'' @ quoted text @ '','') \<and>
      (msg \<noteq> Undefined \<longrightarrow>
         (\<exists>c. serialize msg = Some c \<and> part = quoted ''content'' @ '':'' @ c @ '',''))) \<and>
     JSON_stringify (Obj [(''id'', Str (sanitize ts)), (''content'', msg), (''structData'', m)])
       = ''{'' @ quoted ''id'' @ '':'' @ quoted (sanitize ts) @ '','' @ part
           @ quoted ''structData'' @ '':'' @ whole @ ''}''"
proof -
  have names: "quote ''id'' = quoted ''id''" "quote ''content'' = quoted ''content''"
    "quote ''structData'' = quoted ''structData''"
    by (simp_all add: quote_plain plain_def)
  note sid = quote_plain[OF plain_sanitize, of ts]
  show ?thesis
  proof (cases "serialize msg")
    case None
    then have u: "msg = Undefined" by (cases msg) auto
    with None rec names sid show ?thesis
      by (intro exI[of _ "[]"]) (simp add: JSON_stringify_def)
  next
    case (Some c)
    then have nu: "msg \<noteq> Undefined" by auto
    have "\<forall>text. msg = Str text \<and> plain text \<longrightarrow> c = quoted text"
      using Some by (auto simp: quote_plain)
    with Some nu rec names sid show ?thesis
      by (intro exI[of _ "quoted ''content'' @ '':'' @ c @ '',''"]) (simp add: JSON_stringify_def)
  qed
qed

lemma serialize_props_text:
  "list_all (\<lambda>(k, t). plain k \<and> plain t) fs \<Longrightarrow>
   serialize_props (map (\<lambda>(k, t). (k, Str t)) fs) = map (\<lambda>(k, t). quoted k @ '':'' @ quoted t) fs"
  by (induction fs) (auto simp: quote_plain)

lemma join_text_fields:
  "join '','' (map (\<lambda>(k, t). quoted k @ '':'' @ quoted t) fs) = text_fields fs"
  by (induction fs rule: text_fields.induct) auto

lemma serialize_text_record:
  assumes "serialize m = Some whole" "m = Obj (map (\<lambda>(k, t). (k, Str t)) fs)"
    "list_all (\<lambda>(k, t). plain k \<and> plain t) fs"
  shows "whole = ''{'' @ text_fields fs @ ''}''"
proof -
  from assms(1,2) have "whole = ''{'' @ join '','' (serialize_props (map (\<lambda>(k, t). (k, Str t)) fs)) @ ''}''"
    by simp
  then show ?thesis
    by (simp only: serialize_props_text[OF assms(3)] join_text_fields)
qed

lemma two_elements: "length xs = 2 \<Longrightarrow> xs = [xs ! 0, xs ! 1]"
  by (auto simp: length_Suc_conv numeral_2_eq_2)

section \<open>Numerals and the success response\<close>

lemma digit_char_is_digit: "d < 10 \<Longrightarrow> is_digit (digit_char d)"
  by (simp add: is_digit_def digit_char_def)

lemma show_nat_digits: "show_nat n \<noteq> [] \<and> (\<forall>c \<in> set (show_nat n). is_digit c)"
proof (induction n rule: show_nat.induct)
  case (1 n)
  show ?case
  proof (cases "n < 10")
    case True
    then show ?thesis using digit_char_is_digit[of n] by (subst (1 2) show_nat.simps) auto
  next
    case False
    then show ?thesis using 1 digit_char_is_digit[of "n mod 10"]
      by (subst (1 2) show_nat.simps) auto
  qed
qed

lemma no_digit_no_count:
  assumes "\<forall>c \<in> set (JSON_stringify (body resp)). \<not> is_digit c"
  shows "\<not> mentions_count resp n"
proof
  assume "mentions_count resp n"
  then have "set (show_nat n) \<subseteq> set (JSON_stringify (body resp))"
    unfolding mentions_count_def by (rule set_mono_sublist)
  moreover from show_nat_digits[of n] obtain c where "c \<in> set (show_nat n)" "is_digit c"
    by (cases "show_nat n") auto
  ultimately show False using assms by blast
qed

lemma success_body_no_digit:
  "\<forall>c \<in> set (JSON_stringify (Obj [(''success'', Bool True), (''message'', Str ''Processed all users!'')])).
     \<not> is_digit c"
  by (simp add: JSON_stringify_def quote_def quote_char_def is_digit_def)

lemma api_process_success:
  assumes "fst (processInputFile E inputFile s) = Inr ()"
  shows "fst (api_process E inputFile s)
           = \<lparr>status = 200,
              body = Obj [(''success'', Bool True), (''message'', Str ''Processed all users!'')]\<rparr>"
  using assms by (cases "processInputFile E inputFile s") (simp add: api_process_def)

section \<open>The registry across the steps\<close>

lemma set_first_seen: "set (first_seen xs) = set xs"
  by (induction xs) auto

lemma group_rows_first_seen:
  assumes "group_rows [] rows = Inr g"
  shows "\<exists>ks. map row_key rows = map Inr ks \<and> map fst g = first_seen ks"
  using group_rows_keys[OF assms] by simp

lemma tenant_step_registry:
  assumes "tenant_step E tok g k s = (r, s')"
  shows "userDatastores s' = userDatastores s \<or>
         (\<exists>v. userDatastores s' = (userDatastores s)(k \<mapsto> v))"
  using assms by (cases rule: tenant_step_cases) auto

lemma run_tenants_registry:
  "run_tenants E tok g ks s = (r, s') \<Longrightarrow>
   dom (userDatastores s) \<subseteq> dom (userDatastores s') \<and>
   (\<forall>k. k \<notin> set ks \<longrightarrow> userDatastores s' k = userDatastores s k)"
proof (induction ks arbitrary: s)
  case Nil
  then show ?case by simp
next
  case (Cons k ks)
  obtain r1 s1 where step: "tenant_step E tok g k s = (r1, s1)" by (cases "tenant_step E tok g k s")
  from tenant_step_registry[OF step]
  have one: "dom (userDatastores s) \<subseteq> dom (userDatastores s1) \<and>
      (\<forall>k'. k' \<noteq> k \<longrightarrow> userDatastores s1 k' = userDatastores s k')"
    by auto
  show ?case
  proof (cases r1)
    case (Inl e)
    with Cons.prems step have "s' = s1" by simp
    with one show ?thesis by auto
  next
    case (Inr u)
    with Cons.prems step have "run_tenants E tok g ks s1 = (r, s')" by simp
    from Cons.IH[OF this] have rest: "dom (userDatastores s1) \<subseteq> dom (userDatastores s')"
      "\<And>k'. k' \<notin> set ks \<Longrightarrow> userDatastores s' k' = userDatastores s1 k'"
      by auto
    from one rest(1) have "dom (userDatastores s) \<subseteq> dom (userDatastores s')" by blast
    moreover from one rest(2)
    have "\<forall>k'. k' \<notin> set (k # ks) \<longrightarrow> userDatastores s' k' = userDatastores s k'" by simp
    ultimately show ?thesis by blast
  qed
qed

section \<open>The partition\<close>

text \<open>Grouping succeeds exactly when every row has a key (it is not \<^verbatim>\<open>null\<close>, and its
  \<^verbatim>\<open>userPhone\<close> converts to a string) that names no property of
  \<^verbatim>\<open>Object.prototype\<close>. Then the groups have distinct keys, every row is in the group of
  its key, and a group is the rows of its key in input order.\<close>

lemma distinct_first_seen: "distinct (first_seen xs)"
  by (induction xs) (auto simp: distinct_removeAll)

lemma group_rows_own_keys:
  "group_rows g rows = Inr g' \<Longrightarrow> fst ` set g \<inter> set object_prototype_names = {} \<Longrightarrow>
   fst ` set g' \<inter> set object_prototype_names = {} \<and>
   (\<forall>row \<in> set rows. \<exists>k. row_key row = Inr k \<and> k \<notin> set object_prototype_names)"
proof (induction rows arbitrary: g)
  case Nil
  then show ?case by simp
next
  case (Cons row rows)
  from Cons.prems(1) obtain g1 where g1: "group_row g row = Inr g1" and rest: "group_rows g1 rows = Inr g'"
    by (auto split: sum.splits)
  from g1 obtain k where k: "row_key row = Inr k"
    "k \<in> fst ` set g \<or> k \<notin> set object_prototype_names"
    "map fst g1 = (if k \<in> fst ` set g then map fst g else map fst g @ [k])"
    by (rule group_row_Inr)
  from k(2) Cons.prems(2) have np: "k \<notin> set object_prototype_names" by blast
  have "set (map fst g1) \<subseteq> insert k (set (map fst g))" using k(3) by (auto split: if_splits)
  then have "fst ` set g1 \<subseteq> insert k (fst ` set g)" by simp
  with np Cons.prems(2) have "fst ` set g1 \<inter> set object_prototype_names = {}" by blast
  from Cons.IH[OF rest this] k(1) np show ?case by auto
qed

lemma group_rows_partition:
  assumes "group_rows [] rows = Inr g"
  shows "distinct (map fst g)"
    and "\<forall>row \<in> set rows. \<exists>k. row_key row = Inr k \<and> k \<notin> set object_prototype_names \<and>
           lookup g k = Own (filter (\<lambda>r. row_key r = Inr k) rows)"
    and "\<forall>k ms. lookup g k = Own ms \<longrightarrow> ms \<noteq> [] \<and> ms = filter (\<lambda>r. row_key r = Inr k) rows"
proof -
  from group_rows_first_seen[OF assms] show "distinct (map fst g)"
    by (auto simp: distinct_first_seen)
  show "\<forall>row \<in> set rows. \<exists>k. row_key row = Inr k \<and> k \<notin> set object_prototype_names \<and>
           lookup g k = Own (filter (\<lambda>r. row_key r = Inr k) rows)"
  proof
    fix row assume row: "row \<in> set rows"
    with group_rows_own_keys[OF assms] obtain k where
      k: "row_key row = Inr k" "k \<notin> set object_prototype_names" by auto
    from row k(1) have "filter (\<lambda>r. row_key r = Inr k) rows \<noteq> []"
      by (auto simp: filter_empty_conv)
    with group_rows_map_of[OF assms, of k]
    have "lookup g k = Own (filter (\<lambda>r. row_key r = Inr k) rows)"
      by (simp add: lookup_Own Let_def)
    with k show "\<exists>k. row_key row = Inr k \<and> k \<notin> set object_prototype_names \<and>
           lookup g k = Own (filter (\<lambda>r. row_key r = Inr k) rows)" by blast
  qed
  show "\<forall>k ms. lookup g k = Own ms \<longrightarrow> ms \<noteq> [] \<and> ms = filter (\<lambda>r. row_key r = Inr k) rows"
    using group_rows_lookup[OF assms] by blast
qed

lemma group_rows_total_iff:
  "(\<exists>g. group_rows [] rows = Inr g) \<longleftrightarrow>
   (\<forall>row \<in> set rows. \<exists>k. row_key row = Inr k \<and> k \<notin> set object_prototype_names)"
  using group_rows_succeeds[of rows "[]"] group_rows_own_keys[of "[]" rows] by auto

section \<open>Evaluating sample runs\<close>

lemmas staging_defs =
  show_nat.simps show_int_def digit_char_def hex_char_def char_of_def bit_Suc_0_iff
  sanitize_def id_char_def
  is_array_index_def is_digit_def dec_value_def Object_keys_def
  lookup_def object_prototype_names_def row_key_def group_row_def
  staged_doc_def jsonlContent_def group_content_def datastore_id_def searchapp_id_def BUCKET_def

lemmas value_defs = staging_defs JSON_stringify_def quote_def quote_char_def

lemmas run_defs =
  api_process_def processInputFile_def getToken_def tenant_step_def createDataStore_def
  createSearchApp_def uploadFileToGCS_def importData_def perform_def Date_now_def Let_def

lemmas demo_defs = all_ok_def fresh_def msg_row_def refuses_def

section \<open>Failure of a step\<close>

text \<open>
  C1, as the specification states it, fails in its last clause: the body of the failure
  response is the message of the error that was thrown, so the caller can tell failures
  apart whenever the messages differ. For the same batch of three tenants, the response
  names \<^verbatim>\<open>B\<close> when the upload for \<^verbatim>\<open>B\<close> fails and \<^verbatim>\<open>C\<close> when the upload for \<^verbatim>\<open>C\<close> fails, the
  storage service naming the destination in its message; and when a record has no
  timestamp the response carries the message of the type error, which names the
  \<^verbatim>\<open>replace\<close> of the staging step.
\<close>

theorem failure_message_tells_failures_apart_counterexample:
  "fst (api_process (upload_fails_for ''B'') (Inr (Arr three_tenants)) fresh)
     = \<lparr>status = 500, body = Obj [(''error'', Str ''upload to B/messages.jsonl failed'')]\<rparr> \<and>
   fst (api_process (upload_fails_for ''C'') (Inr (Arr three_tenants)) fresh)
     = \<lparr>status = 500, body = Obj [(''error'', Str ''upload to C/messages.jsonl failed'')]\<rparr> \<and>
   fst (api_process all_ok (Inr (Arr no_timestamp)) fresh)
     = \<lparr>status = 500,
        body = Obj [(''error'', Str (''Cannot read properties of undefined (reading ''
                       @ [CHR 0x27] @ ''replace'' @ [CHR 0x27] @ '')''))]\<rparr>"
  by (simp add: three_tenants_def no_timestamp_def upload_fails_for_def run_defs staging_defs demo_defs)

text \<open>
  C1, amended. When a step of some tenant fails, the batch stops there. Let the tenants
  before \<open>userPhone\<close> in processing order complete, and let the step of \<open>userPhone\<close> throw
  \<open>e\<close> and leave the process in state \<open>s2\<close>; by \<open>failed_call_fails_step\<close> this is what
  happens when any of its calls (index creation, search-app creation, staging write,
  upload, import trigger, deletion) fails with \<open>e\<close>. Then the handler answers once, with
  status 500 and the body \<^verbatim>\<open>{error: e.message}\<close>: the message of the error as it was
  thrown, to which the handler adds nothing and from which it removes nothing. The
  process is left in \<open>s2\<close>: its trace and its files are those of the moment of the
  failure, so no call and no write was made for a later tenant. Which tenants come later
  makes no difference to the loop: with any other list in their place it ends with the
  same error in the same state.
\<close>

theorem batch_aborts_on_failure:
  assumes "iterate rawData = Inr rows"
    and "group_rows [] rows = Inr userGroups"
    and "getToken E s = (Inr tok, s0)"
    and "Object_keys userGroups = earlier @ userPhone # later"
    and "run_tenants E tok userGroups earlier s0 = (Inr (), s1)"
    and "tenant_step E tok userGroups userPhone s1 = (Inl e, s2)"
  shows "api_process E (Inr rawData) s =
           (\<lparr>status = 500, body = Obj [(''error'', Str (message e))]\<rparr>, s2) \<and>
         (\<forall>others. run_tenants E tok userGroups (earlier @ userPhone # others) s0 = (Inl e, s2))"
  using assms by (simp add: api_process_def processInputFile_def run_tenants_append)

text \<open>Three tenants, the search app of the second one refused: the first tenant is
  processed to the end, the third is never touched.\<close>

theorem batch_aborts_on_failure_witness:
  "fst (api_process (refuses (\<lambda>c. brief c = (''createSearchApp'', ''searchapp-B-3'')))
          (Inr (Arr three_tenants)) fresh)
     = \<lparr>status = 500, body = Obj [(''error'', Str ''refused'')]\<rparr> \<and>
   briefly (trace (snd (api_process (refuses (\<lambda>c. brief c = (''createSearchApp'', ''searchapp-B-3'')))
          (Inr (Arr three_tenants)) fresh)))
     = [((''getToken'', []), None),
        ((''createDataStore'', ''datastore-A-0''), None),
        ((''createSearchApp'', ''searchapp-A-1''), None),
        ((''writeFileSync'', ''/tmp/A-messages.jsonl''), None),
        ((''upload'', ''A/messages.jsonl''), None),
        ((''importData'', ''datastore-A-0''), None),
        ((''unlinkSync'', ''/tmp/A-messages.jsonl''), None),
        ((''createDataStore'', ''datastore-B-2''), None),
        ((''createSearchApp'', ''searchapp-B-3''), Some (Error ''refused''))]"
proof -
  let ?E = "refuses (\<lambda>c. brief c = (''createSearchApp'', ''searchapp-B-3''))"
  let ?g = "[(''A'', [msg_row ''A'' ''t1'' ''hi'']), (''B'', [msg_row ''B'' ''t2'' ''yo'']),
             (''C'', [msg_row ''C'' ''t3'' ''hey''])]"
  let ?s0 = "snd (getToken ?E fresh)"
  let ?s1 = "snd (run_tenants ?E ''tok'' ?g [''A''] ?s0)"
  let ?s2 = "snd (tenant_step ?E ''tok'' ?g ''B'' ?s1)"
  have h1: "iterate (Arr three_tenants) = Inr three_tenants" by simp
  have h2: "group_rows [] three_tenants = Inr ?g"
    by (simp add: three_tenants_def value_defs demo_defs)
  have h3: "getToken ?E fresh = (Inr ''tok'', ?s0)"
    by (simp add: getToken_def demo_defs)
  have h4: "Object_keys ?g = [''A''] @ ''B'' # [''C'']"
    by (simp add: value_defs)
  have "fst (run_tenants ?E ''tok'' ?g [''A''] ?s0) = Inr ()"
    by (simp add: run_defs value_defs demo_defs)
  then have h5: "run_tenants ?E ''tok'' ?g [''A''] ?s0 = (Inr (), ?s1)"
    by (metis prod.collapse)
  have "fst (tenant_step ?E ''tok'' ?g ''B'' ?s1) = Inl (Error ''refused'')"
    by (simp add: run_defs value_defs demo_defs)
  then have h6: "tenant_step ?E ''tok'' ?g ''B'' ?s1 = (Inl (Error ''refused''), ?s2)"
    by (metis prod.collapse)
  have r: "api_process ?E (Inr (Arr three_tenants)) fresh =
      (\<lparr>status = 500, body = Obj [(''error'', Str (message (Error ''refused'')))]\<rparr>, ?s2)"
    by (rule batch_aborts_on_failure[OF h1 h2 h3 h4 h5 h6, THEN conjunct1])
  show ?thesis
    unfolding r by (simp add: briefly_def run_defs value_defs demo_defs)
qed

section \<open>Order of the calls\<close>

text \<open>
  C2. Whatever the input and the environment, the events that one run of
  \<^verbatim>\<open>processInputFile\<close> adds to the trace are sequenced: a search app is requested only
  after the datastore it is bound to was created successfully, and an import into a
  datastore is requested only after that datastore and then a search app on it were
  created successfully. The datastore id carries the tenant's key, so these are the
  calls of one tenant.
\<close>

theorem calls_in_order:
  assumes "processInputFile E inputFile s = (r, s')"
  shows "\<exists>evs. trace s' = trace s @ evs \<and> sequenced evs"
proof -
  consider (early) "s' = s"
    | (token) e where "getToken E s = (Inl e, s')"
    | (run) tok s1 g where "getToken E s = (Inr tok, s1)"
        "run_tenants E tok g (Object_keys g) s1 = (r, s')"
    using assms unfolding processInputFile_def
    by (auto split: sum.splits prod.splits)
  then show ?thesis
  proof cases
    case early
    then show ?thesis by (intro exI[of _ "[]"]) (simp add: sequenced_Nil)
  next
    case token
    then show ?thesis
      by (intro exI[of _ "[(GetToken, Some e)]"]) (auto simp: getToken_def Let_def sequenced_GetToken)
  next
    case run
    from run(1) have t1: "trace s1 = trace s @ [(GetToken, None)]"
      by (auto simp: getToken_def Let_def)
    from run_tenants_sequenced[OF run(2)] obtain evs where
      "trace s' = trace s1 @ evs" "sequenced evs" by blast
    with t1 show ?thesis
      using sequenced_append[OF sequenced_GetToken[of None], of evs]
      by (intro exI[of _ "(GetToken, None) # evs"]) simp
  qed
qed

theorem calls_in_order_witness:
  "sequenced (trace (snd (processInputFile all_ok (Inr (Arr one_tenant)) fresh))) \<and>
   briefly (trace (snd (processInputFile all_ok (Inr (Arr one_tenant)) fresh)))
     = [((''getToken'', []), None),
        ((''createDataStore'', ''datastore-A-0''), None),
        ((''createSearchApp'', ''searchapp-A-1''), None),
        ((''writeFileSync'', ''/tmp/A-messages.jsonl''), None),
        ((''upload'', ''A/messages.jsonl''), None),
        ((''importData'', ''datastore-A-0''), None),
        ((''unlinkSync'', ''/tmp/A-messages.jsonl''), None)]"
proof -
  let ?run = "processInputFile all_ok (Inr (Arr one_tenant)) fresh"
  have "?run = (fst ?run, snd ?run)" by simp
  from calls_in_order[OF this] obtain evs where
    "trace (snd ?run) = trace fresh @ evs" "sequenced evs" by blast
  then have "sequenced (trace (snd ?run))" by (simp add: fresh_def)
  moreover have "briefly (trace (snd ?run)) = [((''getToken'', []), None),
        ((''createDataStore'', ''datastore-A-0''), None),
        ((''createSearchApp'', ''searchapp-A-1''), None),
        ((''writeFileSync'', ''/tmp/A-messages.jsonl''), None),
        ((''upload'', ''A/messages.jsonl''), None),
        ((''importData'', ''datastore-A-0''), None),
        ((''unlinkSync'', ''/tmp/A-messages.jsonl''), None)]"
    by (simp add: briefly_def one_tenant_def run_defs value_defs demo_defs)
  ultimately show ?thesis by simp
qed

section \<open>Tenant keys that name a property of \<^verbatim>\<open>Object.prototype\<close>\<close>

text \<open>
  C3. The partitioner is meant to put every record into the group of its tenant key, and
  it does so whenever it returns (\<open>group_rows_partition\<close>). It does not return for every
  batch: \<^verbatim>\<open>userGroups\<close> is a plain object, so for a record whose \<^verbatim>\<open>userPhone\<close> is
  \<^verbatim>\<open>constructor\<close> the test \<^verbatim>\<open>!userGroups[row.userPhone]\<close> finds the inherited
  \<^verbatim>\<open>Object.prototype.constructor\<close>, no array is created, \<^verbatim>\<open>push\<close> is not a function, and
  \<^verbatim>\<open>processInputFile\<close> throws before any call is made. The record is assigned to no
  group, in every environment and state.
\<close>

theorem prototype_key_breaks_grouping:
  "processInputFile E (Inr (Arr [msg_row ''constructor'' ''t'' ''m''])) s
     = (Inl (TypeError ''userGroups[row.userPhone].push is not a function''), s)"
  by (simp add: processInputFile_def msg_row_def value_defs)

section \<open>The staged file\<close>

text \<open>
  C4, as the specification states it, fails for a record without a message: \<^verbatim>\<open>content\<close>
  is then \<^verbatim>\<open>undefined\<close>, \<^verbatim>\<open>JSON.stringify\<close> leaves the field out, and the staged line has
  the fields \<^verbatim>\<open>id\<close> and \<^verbatim>\<open>structData\<close> only. The word \<^verbatim>\<open>content\<close> occurs nowhere in the
  staged text.
\<close>

theorem line_without_content_counterexample:
  "jsonlContent [Obj [(''userPhone'', Str ''A''), (''timestamp'', Str ''t1'')]]
     = Inr (''{'' @ quoted ''id'' @ '':'' @ quoted ''t1'' @ '','' @ quoted ''structData'' @ '':''
              @ (''{'' @ quoted ''userPhone'' @ '':'' @ quoted ''A'' @ '',''
                   @ quoted ''timestamp'' @ '':'' @ quoted ''t1'' @ ''}'') @ ''}'' @ [CHR 0x0A]) \<and>
   \<not> sublist ''content''
       (''{'' @ quoted ''id'' @ '':'' @ quoted ''t1'' @ '','' @ quoted ''structData'' @ '':''
              @ (''{'' @ quoted ''userPhone'' @ '':'' @ quoted ''A'' @ '',''
                   @ quoted ''timestamp'' @ '':'' @ quoted ''t1'' @ ''}'') @ ''}'' @ [CHR 0x0A])"
  by (simp add: value_defs quoted_def sublist_Cons_right)

text \<open>
  C4, amended. Let the groups come from the input rows, and let the step of tenant
  \<open>userPhone\<close> write a file. Its content, split at the newlines, is one line per record of
  the tenant's group (the rows with that key, in input order; there is at least one) and
  an empty last line, that is, the text ends with a newline. Line \<open>i\<close> is the text
  \<^verbatim>\<open>{"id":"<id>",<content>"structData":<record>}\<close>, the serialization of the object with
  the fields \<^verbatim>\<open>id\<close>, \<^verbatim>\<open>content\<close>, \<^verbatim>\<open>structData\<close> built from record \<open>i\<close>. The id has the
  length of the record's timestamp and, position by position, its character where that
  is one of \<^verbatim>\<open>[A-Za-z0-9_-]\<close> and an underscore elsewhere. \<^verbatim>\<open><record>\<close> is the
  serialization of the whole record; for a record whose fields are all strings without
  characters to escape it is \<^verbatim>\<open>{"key":"text",...}\<close>, the fields in the record's order. \<^verbatim>\<open><content>\<close> is \<^verbatim>\<open>"content":<message>,\<close> with the
  serialized message of the record (a message without characters to escape stands
  between double quotes as it is), and is empty when the record has no message.
\<close>

theorem staged_file_lines:
  assumes grouped: "group_rows [] rows = Inr userGroups"
    and step: "tenant_step E tok userGroups userPhone s = (r, s')"
    and staged: "(WriteFile p content, w) \<in> set (drop (length (trace s)) (trace s'))"
  shows "\<exists>ms lines.
     ms = filter (\<lambda>row. row_key row = Inr userPhone) rows \<and>
     length lines = length ms \<and> lines \<noteq> [] \<and>
     split_lines content = lines @ [[]] \<and>
     (\<forall>i<length ms. \<exists>ts sid msg part whole.
        get_prop (ms ! i) ''timestamp'' = Inr (Str ts) \<and>
        length sid = length ts \<and>
        (\<forall>j<length ts. sid ! j = (if ts ! j \<in> set id_chars then ts ! j else CHR ''_'')) \<and>
        get_prop (ms ! i) ''message'' = Inr msg \<and>
        (msg = Undefined \<longrightarrow> part = []) \<and>
        (\<forall>text. msg = Str text \<and> plain text \<longrightarrow>
           part = quoted ''content'' @ '':'' @ quoted text @ '','') \<and>
        (msg \<noteq> Undefined \<longrightarrow>
           (\<exists>c. serialize msg = Some c \<and> part = quoted ''content'' @ '':'' @ c @ '','')) \<and>
        serialize (ms ! i) = Some whole \<and>
        (\<forall>fs. ms ! i = Obj (map (\<lambda>(k, t). (k, Str t)) fs) \<and>
           list_all (\<lambda>(k, t). plain k \<and> plain t) fs \<longrightarrow>
           whole = ''{'' @ text_fields fs @ ''}'') \<and>
        lines ! i = JSON_stringify
          (Obj [(''id'', Str sid), (''content'', msg), (''structData'', ms ! i)]) \<and>
        lines ! i = ''{'' @ quoted ''id'' @ '':'' @ quoted sid @ '','' @ part
                      @ quoted ''structData'' @ '':'' @ whole @ ''}'')"
proof -
  from step_write_event(1)[OF step staged] obtain ms where own: "lookup userGroups userPhone = Own ms"
    and c: "jsonlContent ms = Inr content"
    by (auto simp: group_content_def split: found.splits)
  from group_rows_lookup[OF grouped own]
  have ms: "ms = filter (\<lambda>row. row_key row = Inr userPhone) rows" and ne: "ms \<noteq> []" by auto
  from jsonlContent_lines[OF c] ne obtain lines where l: "staged_lines ms = Inr lines"
    and len: "length lines = length ms" and sp: "split_lines content = lines @ [[]]"
    by blast
  from len ne have lne: "lines \<noteq> []" by auto
  have each: "\<exists>ts sid msg part whole.
        get_prop (ms ! i) ''timestamp'' = Inr (Str ts) \<and>
        length sid = length ts \<and>
        (\<forall>j<length ts. sid ! j = (if ts ! j \<in> set id_chars then ts ! j else CHR ''_'')) \<and>
        get_prop (ms ! i) ''message'' = Inr msg \<and>
        (msg = Undefined \<longrightarrow> part = []) \<and>
        (\<forall>text. msg = Str text \<and> plain text \<longrightarrow>
           part = quoted ''content'' @ '':'' @ quoted text @ '','') \<and>
        (msg \<noteq> Undefined \<longrightarrow>
           (\<exists>c. serialize msg = Some c \<and> part = quoted ''content'' @ '':'' @ c @ '','')) \<and>
        serialize (ms ! i) = Some whole \<and>
        (\<forall>fs. ms ! i = Obj (map (\<lambda>(k, t). (k, Str t)) fs) \<and>
           list_all (\<lambda>(k, t). plain k \<and> plain t) fs \<longrightarrow>
           whole = ''{'' @ text_fields fs @ ''}'') \<and>
        lines ! i = JSON_stringify
          (Obj [(''id'', Str sid), (''content'', msg), (''structData'', ms ! i)]) \<and>
        lines ! i = ''{'' @ quoted ''id'' @ '':'' @ quoted sid @ '','' @ part
                      @ quoted ''structData'' @ '':'' @ whole @ ''}''"
    if i: "i < length ms" for i
  proof -
    from staged_lines_Inr[OF l, THEN conjunct2, rule_format, OF i] obtain ts msg where
      ts: "get_prop (ms ! i) ''timestamp'' = Inr (Str ts)"
      and msg: "get_prop (ms ! i) ''message'' = Inr msg"
      and line: "lines ! i = JSON_stringify
          (Obj [(''id'', Str (sanitize ts)), (''content'', msg), (''structData'', ms ! i)])"
      by blast
    from serialize_record[OF ts] obtain whole where rec: "serialize (ms ! i) = Some whole" by blast
    from staged_line_shape[OF ts msg rec] obtain part where
      part: "msg = Undefined \<longrightarrow> part = []"
        "\<forall>text. msg = Str text \<and> plain text \<longrightarrow>
           part = quoted ''content'' @ '':'' @ quoted text @ '',''"
        "msg \<noteq> Undefined \<longrightarrow>
           (\<exists>c. serialize msg = Some c \<and> part = quoted ''content'' @ '':'' @ c @ '','')"
      and shape: "JSON_stringify
          (Obj [(''id'', Str (sanitize ts)), (''content'', msg), (''structData'', ms ! i)])
        = ''{'' @ quoted ''id'' @ '':'' @ quoted (sanitize ts) @ '','' @ part
            @ quoted ''structData'' @ '':'' @ whole @ ''}''"
      by blast
    from sanitize_chars[of ts] have sid: "length (sanitize ts) = length ts"
      "\<forall>j<length ts. sanitize ts ! j = (if ts ! j \<in> set id_chars then ts ! j else CHR ''_'')"
      by simp_all
    have flat: "\<forall>fs. ms ! i = Obj (map (\<lambda>(k, t). (k, Str t)) fs) \<and>
           list_all (\<lambda>(k, t). plain k \<and> plain t) fs \<longrightarrow>
           whole = ''{'' @ text_fields fs @ ''}''"
      using serialize_text_record[OF rec] by blast
    from ts sid msg part rec flat line shape show ?thesis
      by (intro exI[of _ ts] exI[of _ "sanitize ts"] exI[of _ msg] exI[of _ part] exI[of _ whole])
         simp
  qed
  from ms len lne sp each show ?thesis by blast
qed

text \<open>Two records of tenant \<^verbatim>\<open>A\<close>, the second without a message, with a record of another
  tenant between them.\<close>

theorem staged_file_lines_witness:
  "group_rows [] rich_rows
     = Inr [(''A'', [rich_rows ! 0, rich_rows ! 2]), (''B'', [rich_rows ! 1])] \<and>
   (\<exists>content.
      (WriteFile ''/tmp/A-messages.jsonl'' content, None)
        \<in> set (trace (snd (tenant_step all_ok ''tok''
              [(''A'', [rich_rows ! 0, rich_rows ! 2]), (''B'', [rich_rows ! 1])] ''A'' fresh))) \<and>
      split_lines content =
        [''{'' @ quoted ''id'' @ '':'' @ quoted ''1_2'' @ '',''
           @ quoted ''content'' @ '':'' @ quoted ''hi'' @ '',''
           @ quoted ''structData'' @ '':''
           @ (''{'' @ quoted ''userPhone'' @ '':'' @ quoted ''A'' @ '',''
                @ quoted ''timestamp'' @ '':'' @ quoted ''1:2'' @ '',''
                @ quoted ''message'' @ '':'' @ quoted ''hi'' @ ''}'') @ ''}'',
         ''{'' @ quoted ''id'' @ '':'' @ quoted ''a_Z-__9'' @ '',''
           @ quoted ''structData'' @ '':''
           @ (''{'' @ quoted ''userPhone'' @ '':'' @ quoted ''A'' @ '',''
                @ quoted ''timestamp'' @ '':'' @ quoted ''a.Z-_ 9'' @ '',''
                @ quoted ''n'' @ '':12,''
                @ quoted ''tags'' @ '':[null,true,'' @ quoted (''x'' @ [CHR 0x5C] @ ''n'') @ '']}'')
           @ ''}'',
         []])"
proof -
  let ?g = "[(''A'', [rich_rows ! 0, rich_rows ! 2]), (''B'', [rich_rows ! 1])]"
  let ?run = "tenant_step all_ok ''tok'' ?g ''A'' fresh"
  let ?l1 = "''{'' @ quoted ''id'' @ '':'' @ quoted ''1_2'' @ '',''
           @ quoted ''content'' @ '':'' @ quoted ''hi'' @ '',''
           @ quoted ''structData'' @ '':''
           @ (''{'' @ quoted ''userPhone'' @ '':'' @ quoted ''A'' @ '',''
                @ quoted ''timestamp'' @ '':'' @ quoted ''1:2'' @ '',''
                @ quoted ''message'' @ '':'' @ quoted ''hi'' @ ''}'') @ ''}''"
  let ?l2 = "''{'' @ quoted ''id'' @ '':'' @ quoted ''a_Z-__9'' @ '',''
           @ quoted ''structData'' @ '':''
           @ (''{'' @ quoted ''userPhone'' @ '':'' @ quoted ''A'' @ '',''
                @ quoted ''timestamp'' @ '':'' @ quoted ''a.Z-_ 9'' @ '',''
                @ quoted ''n'' @ '':12,''
                @ quoted ''tags'' @ '':[null,true,'' @ quoted (''x'' @ [CHR 0x5C] @ ''n'') @ '']}'')
           @ ''}''"
  let ?c = "?l1 @ [CHR 0x0A] @ ?l2 @ [CHR 0x0A]"
  have g: "group_rows [] rich_rows = Inr ?g"
    by (simp add: rich_rows_def staging_defs demo_defs)
  have run: "?run = (fst ?run, snd ?run)" by simp
  have w: "(WriteFile ''/tmp/A-messages.jsonl'' ?c, None) \<in> set (trace (snd ?run))"
    by (simp add: rich_rows_def run_defs value_defs demo_defs quoted_def)
  then have w': "(WriteFile ''/tmp/A-messages.jsonl'' ?c, None)
      \<in> set (drop (length (trace fresh)) (trace (snd ?run)))"
    by (simp add: fresh_def)
  from staged_file_lines[OF g run w'] obtain ms lines where
    ms: "ms = filter (\<lambda>row. row_key row = Inr ''A'') rich_rows"
    and len: "length lines = length ms" and sp: "split_lines ?c = lines @ [[]]"
    and each: "\<forall>i<length ms. \<exists>ts sid msg part whole.
        get_prop (ms ! i) ''timestamp'' = Inr (Str ts) \<and>
        length sid = length ts \<and>
        (\<forall>j<length ts. sid ! j = (if ts ! j \<in> set id_chars then ts ! j else CHR ''_'')) \<and>
        get_prop (ms ! i) ''message'' = Inr msg \<and>
        (msg = Undefined \<longrightarrow> part = []) \<and>
        (\<forall>text. msg = Str text \<and> plain text \<longrightarrow>
           part = quoted ''content'' @ '':'' @ quoted text @ '','') \<and>
        (msg \<noteq> Undefined \<longrightarrow>
           (\<exists>c. serialize msg = Some c \<and> part = quoted ''content'' @ '':'' @ c @ '','')) \<and>
        serialize (ms ! i) = Some whole \<and>
        (\<forall>fs. ms ! i = Obj (map (\<lambda>(k, t). (k, Str t)) fs) \<and>
           list_all (\<lambda>(k, t). plain k \<and> plain t) fs \<longrightarrow>
           whole = ''{'' @ text_fields fs @ ''}'') \<and>
        lines ! i = JSON_stringify
          (Obj [(''id'', Str sid), (''content'', msg), (''structData'', ms ! i)]) \<and>
        lines ! i = ''{'' @ quoted ''id'' @ '':'' @ quoted sid @ '','' @ part
                      @ quoted ''structData'' @ '':'' @ whole @ ''}''"
    by blast
  have ms': "ms = [rich_rows ! 0, rich_rows ! 2]"
    unfolding ms by (simp add: rich_rows_def staging_defs demo_defs)
  have in1: "1 < length ms" using ms' by simp
  from each[rule_format, OF in1] obtain ts sid msg part whole where
    ts: "get_prop (ms ! 1) ''timestamp'' = Inr (Str ts)"
    and sid: "length sid = length ts"
      "\<forall>j<length ts. sid ! j = (if ts ! j \<in> set id_chars then ts ! j else CHR ''_'')"
    and msg: "get_prop (ms ! 1) ''message'' = Inr msg" "msg = Undefined \<longrightarrow> part = []"
    and whole: "serialize (ms ! 1) = Some whole"
    and line: "lines ! 1 = ''{'' @ quoted ''id'' @ '':'' @ quoted sid @ '','' @ part
                      @ quoted ''structData'' @ '':'' @ whole @ ''}''"
    by blast
  from ts have ts': "ts = ''a.Z-_ 9''" unfolding ms' by (simp add: rich_rows_def msg_row_def)
  have "sid = ''a_Z-__9''"
  proof (rule nth_equalityI)
    show "length sid = length ''a_Z-__9''" using sid(1) ts' by simp
    fix j assume "j < length sid"
    with sid(1) ts' have "j < 7" by simp
    then consider "j = 0" | "j = 1" | "j = 2" | "j = 3" | "j = 4" | "j = 5" | "j = 6" by linarith
    then show "sid ! j = ''a_Z-__9'' ! j"
      using sid(2)[rule_format, of j] ts' by cases (simp_all add: id_chars_def)
  qed
  moreover from msg have "part = []" unfolding ms' by (simp add: rich_rows_def msg_row_def)
  moreover from whole have "whole = ''{'' @ quoted ''userPhone'' @ '':'' @ quoted ''A'' @ '',''
                @ quoted ''timestamp'' @ '':'' @ quoted ''a.Z-_ 9'' @ '',''
                @ quoted ''n'' @ '':12,''
                @ quoted ''tags'' @ '':[null,true,'' @ quoted (''x'' @ [CHR 0x5C] @ ''n'') @ '']}''"
    unfolding ms' by (simp add: rich_rows_def value_defs quoted_def)
  ultimately have l2: "lines ! 1 = ?l2" using line by simp
  have in0: "0 < length ms" using ms' by simp
  from each[rule_format, OF in0] obtain ts0 sid0 msg0 part0 whole0 where
    ts0: "get_prop (ms ! 0) ''timestamp'' = Inr (Str ts0)"
    and sid0: "length sid0 = length ts0"
      "\<forall>j<length ts0. sid0 ! j = (if ts0 ! j \<in> set id_chars then ts0 ! j else CHR ''_'')"
    and msg0: "get_prop (ms ! 0) ''message'' = Inr msg0"
      "\<forall>text. msg0 = Str text \<and> plain text \<longrightarrow>
           part0 = quoted ''content'' @ '':'' @ quoted text @ '',''"
    and whole0: "\<forall>fs. ms ! 0 = Obj (map (\<lambda>(k, t). (k, Str t)) fs) \<and>
           list_all (\<lambda>(k, t). plain k \<and> plain t) fs \<longrightarrow>
           whole0 = ''{'' @ text_fields fs @ ''}''"
    and line0: "lines ! 0 = ''{'' @ quoted ''id'' @ '':'' @ quoted sid0 @ '','' @ part0
                      @ quoted ''structData'' @ '':'' @ whole0 @ ''}''"
    by blast
  from ts0 have ts0': "ts0 = ''1:2''" unfolding ms' by (simp add: rich_rows_def msg_row_def)
  have "sid0 = ''1_2''"
  proof (rule nth_equalityI)
    show "length sid0 = length ''1_2''" using sid0(1) ts0' by simp
    fix j assume "j < length sid0"
    with sid0(1) ts0' have "j < 3" by simp
    then consider "j = 0" | "j = 1" | "j = 2" by linarith
    then show "sid0 ! j = ''1_2'' ! j"
      using sid0(2)[rule_format, of j] ts0' by cases (simp_all add: id_chars_def)
  qed
  moreover from msg0(1) have "msg0 = Str ''hi''" unfolding ms' by (simp add: rich_rows_def msg_row_def)
  with msg0(2) have "part0 = quoted ''content'' @ '':'' @ quoted ''hi'' @ '',''"
    by (simp add: plain_def)
  moreover from whole0[rule_format,
      of "[(''userPhone'', ''A''), (''timestamp'', ''1:2''), (''message'', ''hi'')]"]
  have "whole0 = ''{'' @ quoted ''userPhone'' @ '':'' @ quoted ''A'' @ '',''
                @ quoted ''timestamp'' @ '':'' @ quoted ''1:2'' @ '',''
                @ quoted ''message'' @ '':'' @ quoted ''hi'' @ ''}''"
    unfolding ms' by (simp add: rich_rows_def msg_row_def plain_def)
  ultimately have l1: "lines ! 0 = ?l1" using line0 by simp
  from len ms' have "length lines = 2" by simp
  then have "lines = [lines ! 0, lines ! 1]" by (rule two_elements)
  also have "\<dots> = [?l1, ?l2]" by (simp only: l1 l2)
  finally have "lines = [?l1, ?l2]" .
  with sp have "split_lines ?c = [?l1, ?l2, []]" by simp
  with g w show ?thesis by blast
qed

section \<open>Records with the same document id\<close>

text \<open>
  C5, as the specification states it, fails: two records of one group whose timestamps
  sanitize to the same id (\<^verbatim>\<open>1:2\<close> and \<^verbatim>\<open>1 2\<close> both give \<^verbatim>\<open>1_2\<close>) are staged as two
  lines. The staged text has both documents, the earlier one first; nothing is
  overwritten.
\<close>

theorem same_id_lines_counterexample:
  "jsonlContent [msg_row ''A'' ''1:2'' ''hi'', msg_row ''A'' ''1 2'' ''hey'']
     = Inr (JSON_stringify (Obj [(''id'', Str ''1_2''), (''content'', Str ''hi''),
                  (''structData'', msg_row ''A'' ''1:2'' ''hi'')]) @ [CHR 0x0A] @
            JSON_stringify (Obj [(''id'', Str ''1_2''), (''content'', Str ''hey''),
                  (''structData'', msg_row ''A'' ''1 2'' ''hey'')]) @ [CHR 0x0A]) \<and>
   split_lines
     (JSON_stringify (Obj [(''id'', Str ''1_2''), (''content'', Str ''hi''),
                  (''structData'', msg_row ''A'' ''1:2'' ''hi'')]) @ [CHR 0x0A] @
      JSON_stringify (Obj [(''id'', Str ''1_2''), (''content'', Str ''hey''),
                  (''structData'', msg_row ''A'' ''1 2'' ''hey'')]) @ [CHR 0x0A])
     = [JSON_stringify (Obj [(''id'', Str ''1_2''), (''content'', Str ''hi''),
                  (''structData'', msg_row ''A'' ''1:2'' ''hi'')]),
        JSON_stringify (Obj [(''id'', Str ''1_2''), (''content'', Str ''hey''),
                  (''structData'', msg_row ''A'' ''1 2'' ''hey'')]),
        []]"
proof -
  have "jsonlContent [msg_row ''A'' ''1:2'' ''hi'', msg_row ''A'' ''1 2'' ''hey'']
     = Inr (JSON_stringify (Obj [(''id'', Str ''1_2''), (''content'', Str ''hi''),
                  (''structData'', msg_row ''A'' ''1:2'' ''hi'')]) @ [CHR 0x0A] @
            JSON_stringify (Obj [(''id'', Str ''1_2''), (''content'', Str ''hey''),
                  (''structData'', msg_row ''A'' ''1 2'' ''hey'')]) @ [CHR 0x0A])"
    by (simp add: staging_defs msg_row_def)
  moreover have "split_lines
     (JSON_stringify (Obj [(''id'', Str ''1_2''), (''content'', Str ''hi''),
                  (''structData'', msg_row ''A'' ''1:2'' ''hi'')]) @ [CHR 0x0A] @
      JSON_stringify (Obj [(''id'', Str ''1_2''), (''content'', Str ''hey''),
                  (''structData'', msg_row ''A'' ''1 2'' ''hey'')]) @ [CHR 0x0A])
     = [JSON_stringify (Obj [(''id'', Str ''1_2''), (''content'', Str ''hi''),
                  (''structData'', msg_row ''A'' ''1:2'' ''hi'')]),
        JSON_stringify (Obj [(''id'', Str ''1_2''), (''content'', Str ''hey''),
                  (''structData'', msg_row ''A'' ''1 2'' ''hey'')]),
        []]"
    by (simp add: split_lines_line JSON_stringify_no_nl)
  ultimately show ?thesis by simp
qed

text \<open>
  C5, amended. Records with the same sanitized id are all kept: when records \<open>i < j\<close> of a
  group have timestamps with the same sanitized id, the staged text has one line per
  record of the group, and lines \<open>i\<close> and \<open>j\<close> are the documents of these two records,
  both carrying that id.
\<close>

theorem duplicate_ids_are_kept:
  assumes content: "jsonlContent ms = Inr content"
    and ij: "i < j" "j < length ms"
    and ti: "get_prop (ms ! i) ''timestamp'' = Inr (Str ti)"
    and tj: "get_prop (ms ! j) ''timestamp'' = Inr (Str tj)"
    and same: "sanitize ti = sanitize tj"
  shows "length (split_lines content) = length ms + 1 \<and>
    (\<exists>mi. split_lines content ! i = JSON_stringify
        (Obj [(''id'', Str (sanitize ti)), (''content'', mi), (''structData'', ms ! i)])) \<and>
    (\<exists>mj. split_lines content ! j = JSON_stringify
        (Obj [(''id'', Str (sanitize ti)), (''content'', mj), (''structData'', ms ! j)]))"
proof -
  from ij have ne: "ms \<noteq> []" by auto
  from jsonlContent_lines[OF content] ne obtain lines where l: "staged_lines ms = Inr lines"
    and len: "length lines = length ms" and sp: "split_lines content = lines @ [[]]"
    by blast
  note each = staged_lines_Inr[OF l, THEN conjunct2, rule_format]
  from ij have i: "i < length ms" by simp
  from each[OF i] ti obtain mi where
    "lines ! i = JSON_stringify (Obj [(''id'', Str (sanitize ti)), (''content'', mi), (''structData'', ms ! i)])"
    by auto
  moreover from each[OF ij(2)] tj same obtain mj where
    "lines ! j = JSON_stringify (Obj [(''id'', Str (sanitize ti)), (''content'', mj), (''structData'', ms ! j)])"
    by auto
  ultimately show ?thesis using sp len i ij(2) by (auto simp: nth_append)
qed

theorem duplicate_ids_are_kept_witness:
  "sanitize ''1:2'' = sanitize ''1 2'' \<and>
   (\<exists>content mi mj.
      jsonlContent [msg_row ''A'' ''1:2'' ''hi'', msg_row ''A'' ''1 2'' ''hey''] = Inr content \<and>
      length (split_lines content) = 3 \<and>
      split_lines content ! 0 = JSON_stringify (Obj [(''id'', Str ''1_2''), (''content'', mi),
                  (''structData'', msg_row ''A'' ''1:2'' ''hi'')]) \<and>
      split_lines content ! 1 = JSON_stringify (Obj [(''id'', Str ''1_2''), (''content'', mj),
                  (''structData'', msg_row ''A'' ''1 2'' ''hey'')]))"
proof -
  let ?ms = "[msg_row ''A'' ''1:2'' ''hi'', msg_row ''A'' ''1 2'' ''hey'']"
  have same: "sanitize ''1:2'' = sanitize ''1 2''" by (simp add: sanitize_def id_char_def)
  have id: "sanitize ''1:2'' = ''1_2''" by (simp add: sanitize_def id_char_def)
  obtain content where c: "jsonlContent ?ms = Inr content"
    by (simp add: staging_defs msg_row_def)
  have ti: "get_prop (?ms ! 0) ''timestamp'' = Inr (Str ''1:2'')" by (simp add: msg_row_def)
  have tj: "get_prop (?ms ! 1) ''timestamp'' = Inr (Str ''1 2'')" by (simp add: msg_row_def)
  have ij: "(0::nat) < 1" "1 < length ?ms" by simp_all
  from duplicate_ids_are_kept[OF c ij ti tj same]
  obtain mi mj where len: "length (split_lines content) = length ?ms + 1"
    and li: "split_lines content ! 0 = JSON_stringify
        (Obj [(''id'', Str (sanitize ''1:2'')), (''content'', mi), (''structData'', ?ms ! 0)])"
    and lj: "split_lines content ! 1 = JSON_stringify
        (Obj [(''id'', Str (sanitize ''1:2'')), (''content'', mj), (''structData'', ?ms ! 1)])"
    by blast
  from len have "length (split_lines content) = 3" by simp
  moreover from li have "split_lines content ! 0 = JSON_stringify (Obj [(''id'', Str ''1_2''),
      (''content'', mi), (''structData'', msg_row ''A'' ''1:2'' ''hi'')])"
    unfolding id by simp
  moreover from lj have "split_lines content ! 1 = JSON_stringify (Obj [(''id'', Str ''1_2''),
      (''content'', mj), (''structData'', msg_row ''A'' ''1 2'' ''hey'')])"
    unfolding id by simp
  ultimately show ?thesis using same c by blast
qed

section \<open>The order in which tenants are processed\<close>

text \<open>
  C6, as the specification states it, fails: the loop runs over
  \<^verbatim>\<open>Object.keys(userGroups)\<close>, and a plain object lists its keys that are array indices
  first, in ascending numeric order, whenever they were added. With the tenant keys
  \<^verbatim>\<open>2\<close> and \<^verbatim>\<open>1\<close>, first seen in this order, tenant \<^verbatim>\<open>1\<close> is processed before tenant
  \<^verbatim>\<open>2\<close>.
\<close>

theorem first_seen_order_counterexample:
  "group_rows [] numbered_tenants
     = Inr [(''2'', [msg_row ''2'' ''t1'' ''hi'']), (''1'', [msg_row ''1'' ''t2'' ''yo''])] \<and>
   first_seen [''2'', ''1''] = [''2'', ''1''] \<and>
   Object_keys [(''2'', [msg_row ''2'' ''t1'' ''hi'']), (''1'', [msg_row ''1'' ''t2'' ''yo''])]
     = [''1'', ''2''] \<and>
   briefly (trace (snd (processInputFile all_ok (Inr (Arr numbered_tenants)) fresh)))
     = [((''getToken'', []), None),
        ((''createDataStore'', ''datastore-1-0''), None),
        ((''createSearchApp'', ''searchapp-1-1''), None),
        ((''writeFileSync'', ''/tmp/1-messages.jsonl''), None),
        ((''upload'', ''1/messages.jsonl''), None),
        ((''importData'', ''datastore-1-0''), None),
        ((''unlinkSync'', ''/tmp/1-messages.jsonl''), None),
        ((''createDataStore'', ''datastore-2-2''), None),
        ((''createSearchApp'', ''searchapp-2-3''), None),
        ((''writeFileSync'', ''/tmp/2-messages.jsonl''), None),
        ((''upload'', ''2/messages.jsonl''), None),
        ((''importData'', ''datastore-2-2''), None),
        ((''unlinkSync'', ''/tmp/2-messages.jsonl''), None)]"
  by (simp add: briefly_def numbered_tenants_def run_defs staging_defs demo_defs)

text \<open>
  C6, amended. When the rows can be grouped, the tenants are processed in the order of
  \<^verbatim>\<open>Object.keys\<close>: the tenant keys that are array indices (canonical decimal numerals
  below \<open>2\<^sup>3\<^sup>2 - 1\<close>) in ascending numeric order, then the other tenant keys in the
  order in which they first occur in the input. When no tenant key is an array index,
  this is the order of first occurrence.
\<close>

theorem processing_order:
  assumes "group_rows [] rows = Inr userGroups"
  shows "\<exists>ks. map row_key rows = map Inr ks \<and>
     Object_keys userGroups =
       sort_key dec_value (filter is_array_index (first_seen ks))
         @ filter (\<lambda>k. \<not> is_array_index k) (first_seen ks) \<and>
     ((\<forall>k \<in> set ks. \<not> is_array_index k) \<longrightarrow> Object_keys userGroups = first_seen ks) \<and>
     processInputFile E (Inr (Arr rows)) s =
       (case getToken E s of
          (Inl e, s1) \<Rightarrow> (Inl e, s1)
        | (Inr tok, s1) \<Rightarrow> run_tenants E tok userGroups (Object_keys userGroups) s1)"
proof -
  from group_rows_first_seen[OF assms] obtain ks where
    ks: "map row_key rows = map Inr ks" "map fst userGroups = first_seen ks" by blast
  have order: "Object_keys userGroups =
       sort_key dec_value (filter is_array_index (first_seen ks))
         @ filter (\<lambda>k. \<not> is_array_index k) (first_seen ks)"
    by (simp add: Object_keys_def ks(2))
  have plain: "(\<forall>k \<in> set ks. \<not> is_array_index k) \<longrightarrow> Object_keys userGroups = first_seen ks"
  proof
    assume "\<forall>k \<in> set ks. \<not> is_array_index k"
    then have "\<forall>k \<in> set (first_seen ks). \<not> is_array_index k" by (simp add: set_first_seen)
    then have "filter is_array_index (first_seen ks) = []"
      and "filter (\<lambda>k. \<not> is_array_index k) (first_seen ks) = first_seen ks"
      by (simp_all add: filter_empty_conv)
    with order show "Object_keys userGroups = first_seen ks" by simp
  qed
  have "processInputFile E (Inr (Arr rows)) s =
       (case getToken E s of
          (Inl e, s1) \<Rightarrow> (Inl e, s1)
        | (Inr tok, s1) \<Rightarrow> run_tenants E tok userGroups (Object_keys userGroups) s1)"
    using assms by (simp add: processInputFile_def)
  with ks(1) order plain show ?thesis by blast
qed

text \<open>Keys \<^verbatim>\<open>b\<close>, \<^verbatim>\<open>10\<close>, \<^verbatim>\<open>a\<close>, \<^verbatim>\<open>9\<close>, \<^verbatim>\<open>b\<close> give the order \<^verbatim>\<open>9\<close>, \<^verbatim>\<open>10\<close>, \<^verbatim>\<open>b\<close>, \<^verbatim>\<open>a\<close>.\<close>

theorem processing_order_witness:
  "group_rows [] mixed_tenants
     = Inr [(''b'', [msg_row ''b'' ''t1'' ''m'', msg_row ''b'' ''t5'' ''m'']),
            (''10'', [msg_row ''10'' ''t2'' ''m'']), (''a'', [msg_row ''a'' ''t3'' ''m'']),
            (''9'', [msg_row ''9'' ''t4'' ''m''])] \<and>
   map row_key mixed_tenants = map Inr [''b'', ''10'', ''a'', ''9'', ''b''] \<and>
   first_seen [''b'', ''10'', ''a'', ''9'', ''b''] = [''b'', ''10'', ''a'', ''9''] \<and>
   Object_keys [(''b'', [msg_row ''b'' ''t1'' ''m'', msg_row ''b'' ''t5'' ''m'']),
            (''10'', [msg_row ''10'' ''t2'' ''m'']), (''a'', [msg_row ''a'' ''t3'' ''m'']),
            (''9'', [msg_row ''9'' ''t4'' ''m''])]
     = [''9'', ''10'', ''b'', ''a'']"
proof -
  let ?g = "[(''b'', [msg_row ''b'' ''t1'' ''m'', msg_row ''b'' ''t5'' ''m'']),
            (''10'', [msg_row ''10'' ''t2'' ''m'']), (''a'', [msg_row ''a'' ''t3'' ''m'']),
            (''9'', [msg_row ''9'' ''t4'' ''m''])]"
  have g: "group_rows [] mixed_tenants = Inr ?g"
    by (simp add: mixed_tenants_def staging_defs demo_defs)
  have keys: "map row_key mixed_tenants = map Inr [''b'', ''10'', ''a'', ''9'', ''b'']"
    by (simp add: mixed_tenants_def row_key_def msg_row_def)
  have fs: "first_seen [''b'', ''10'', ''a'', ''9'', ''b''] = [''b'', ''10'', ''a'', ''9'']"
    by simp
  from processing_order[OF g, of all_ok fresh] obtain ks where
    ks: "map row_key mixed_tenants = map Inr ks"
    and order: "Object_keys ?g =
       sort_key dec_value (filter is_array_index (first_seen ks))
         @ filter (\<lambda>k. \<not> is_array_index k) (first_seen ks)"
    by blast
  from ks keys have "ks = [''b'', ''10'', ''a'', ''9'', ''b'']"
    by (metis inj_Inr inj_map_eq_map)
  with order fs have "Object_keys ?g =
       sort_key dec_value (filter is_array_index [''b'', ''10'', ''a'', ''9''])
         @ filter (\<lambda>k. \<not> is_array_index k) [''b'', ''10'', ''a'', ''9'']"
    by simp
  then have "Object_keys ?g = [''9'', ''10'', ''b'', ''a'']"
    by (simp add: is_array_index_def is_digit_def dec_value_def)
  with g keys fs show ?thesis by simp
qed

section \<open>The success response\<close>

text \<open>
  C7, as the specification states it, fails: the handler answers a successful batch
  with a constant. For a batch of three tenants that all complete, the body is
  \<^verbatim>\<open>{success: true, message: "Processed all users!"}\<close>, and the numeral 3 occurs
  nowhere in it.
\<close>

theorem success_response_has_no_count_counterexample:
  "fst (processInputFile all_ok (Inr (Arr three_tenants)) fresh) = Inr () \<and>
   fst (api_process all_ok (Inr (Arr three_tenants)) fresh)
     = \<lparr>status = 200,
        body = Obj [(''success'', Bool True), (''message'', Str ''Processed all users!'')]\<rparr> \<and>
   \<not> mentions_count (fst (api_process all_ok (Inr (Arr three_tenants)) fresh)) 3"
proof -
  have ok: "fst (processInputFile all_ok (Inr (Arr three_tenants)) fresh) = Inr ()"
    by (simp add: three_tenants_def run_defs staging_defs demo_defs)
  note r = api_process_success[OF ok]
  have "\<not> mentions_count (fst (api_process all_ok (Inr (Arr three_tenants)) fresh)) 3"
    unfolding r by (rule no_digit_no_count) (simp add: success_body_no_digit)
  with ok r show ?thesis by simp
qed

text \<open>
  C7, amended. For every batch in which all tenants complete, the response has status
  200 and the fixed body \<^verbatim>\<open>{success: true, message: "Processed all users!"}\<close>; it
  mentions no number, so no count of tenants.
\<close>

theorem success_response_is_fixed:
  assumes "fst (processInputFile E inputFile s) = Inr ()"
  shows "fst (api_process E inputFile s)
           = \<lparr>status = 200,
              body = Obj [(''success'', Bool True), (''message'', Str ''Processed all users!'')]\<rparr> \<and>
         (\<forall>n. \<not> mentions_count (fst (api_process E inputFile s)) n)"
proof -
  note r = api_process_success[OF assms]
  have "\<not> mentions_count (fst (api_process E inputFile s)) n" for n
    unfolding r by (rule no_digit_no_count) (simp add: success_body_no_digit)
  with r show ?thesis by simp
qed

theorem success_response_is_fixed_witness:
  "fst (processInputFile all_ok (Inr (Arr one_tenant)) fresh) = Inr () \<and>
   fst (api_process all_ok (Inr (Arr one_tenant)) fresh)
     = \<lparr>status = 200,
        body = Obj [(''success'', Bool True), (''message'', Str ''Processed all users!'')]\<rparr> \<and>
   \<not> mentions_count (fst (api_process all_ok (Inr (Arr one_tenant)) fresh)) 1"
proof -
  have ok: "fst (processInputFile all_ok (Inr (Arr one_tenant)) fresh) = Inr ()"
    by (simp add: one_tenant_def run_defs staging_defs demo_defs)
  from success_response_is_fixed[OF ok] ok show ?thesis by blast
qed

section \<open>The registry of provisioned resources\<close>

text \<open>
  C8, as the specification states it, fails: \<^verbatim>\<open>userDatastores\<close> is a constant of the
  module, created once when the server starts, and no request empties it. After a
  request that provisions tenant \<^verbatim>\<open>A\<close>, the next request, here one with an empty input,
  starts with the entry of \<^verbatim>\<open>A\<close> in the registry and ends with it.
\<close>

theorem registry_survives_counterexample:
  "userDatastores (snd (api_process all_ok (Inr (Arr one_tenant)) fresh)) ''A''
     = Some (''datastore-A-0'', ''searchapp-A-1'') \<and>
   userDatastores (snd (api_process all_ok (Inr (Arr []))
       (snd (api_process all_ok (Inr (Arr one_tenant)) fresh)))) ''A''
     = Some (''datastore-A-0'', ''searchapp-A-1'')"
  by (simp add: one_tenant_def run_defs staging_defs demo_defs)

text \<open>
  C8, amended. The registry belongs to the process, not to a request: a request never
  removes an entry, and the entry of every key that is not a tenant key of the
  request's own input is after the request what it was before. (An entry is replaced
  only when the request provisions the same tenant key again.)
\<close>

theorem registry_outlives_requests:
  assumes "api_process E inputFile s = (resp, s')"
  shows "dom (userDatastores s) \<subseteq> dom (userDatastores s') \<and>
         (\<forall>rawData rows k. inputFile = Inr rawData \<longrightarrow> iterate rawData = Inr rows \<longrightarrow>
            Inr k \<notin> row_key ` set rows \<longrightarrow> userDatastores s' k = userDatastores s k)"
proof -
  obtain r where run: "processInputFile E inputFile s = (r, s')"
    using assms by (auto simp: api_process_def split: prod.splits sum.splits)
  have "s' = s \<or> (\<exists>e. getToken E s = (Inl e, s')) \<or>
      (\<exists>rawData rows g tok s1. inputFile = Inr rawData \<and> iterate rawData = Inr rows \<and>
        group_rows [] rows = Inr g \<and> getToken E s = (Inr tok, s1) \<and>
        run_tenants E tok g (Object_keys g) s1 = (r, s'))"
  proof (cases inputFile)
    case (Inl e)
    with run show ?thesis by (simp add: processInputFile_def)
  next
    case raw: (Inr rawData)
    show ?thesis
    proof (cases "iterate rawData")
      case (Inl e)
      with run raw show ?thesis by (simp add: processInputFile_def)
    next
      case rows: (Inr rows)
      show ?thesis
      proof (cases "group_rows [] rows")
        case (Inl e)
        with run raw rows show ?thesis by (simp add: processInputFile_def)
      next
        case g: (Inr g)
        obtain t s1 where tok: "getToken E s = (t, s1)" by (cases "getToken E s")
        show ?thesis
        proof (cases t)
          case (Inl e)
          with run raw rows g tok show ?thesis by (simp add: processInputFile_def)
        next
          case (Inr tk)
          with run raw rows g tok have "run_tenants E tk g (Object_keys g) s1 = (r, s')"
            by (simp add: processInputFile_def)
          with raw rows g tok Inr show ?thesis by blast
        qed
      qed
    qed
  qed
  then consider (early) "s' = s"
    | (token) e where "getToken E s = (Inl e, s')"
    | (run) rawData rows g tok s1 where "inputFile = Inr rawData" "iterate rawData = Inr rows"
        "group_rows [] rows = Inr g" "getToken E s = (Inr tok, s1)"
        "run_tenants E tok g (Object_keys g) s1 = (r, s')"
    by blast
  then show ?thesis
  proof cases
    case early
    then show ?thesis by simp
  next
    case token
    then have "userDatastores s' = userDatastores s" by (auto simp: getToken_def Let_def)
    then show ?thesis by simp
  next
    case run
    from run(4) have reg1: "userDatastores s1 = userDatastores s" by (auto simp: getToken_def Let_def)
    from run_tenants_registry[OF run(5)] reg1
    have dom: "dom (userDatastores s) \<subseteq> dom (userDatastores s')"
      and other: "\<And>k. k \<notin> set (Object_keys g) \<Longrightarrow> userDatastores s' k = userDatastores s k"
      by auto
    from group_rows_first_seen[OF run(3)] obtain ks where
      ks: "map row_key rows = map Inr ks" "map fst g = first_seen ks" by blast
    have keys: "k \<in> set (Object_keys g) \<Longrightarrow> Inr k \<in> row_key ` set rows" for k
    proof -
      assume "k \<in> set (Object_keys g)"
      then have "k \<in> set (map fst g)" by (simp add: set_Object_keys)
      with ks(2) have "k \<in> set ks" by (simp add: set_first_seen)
      then have "Inr k \<in> set (map Inr ks)" by simp
      with ks(1) show ?thesis by (metis list.set_map)
    qed
    show ?thesis using dom other keys run(1,2) by auto
  qed
qed

text \<open>A request for tenant \<^verbatim>\<open>A\<close>, then one for tenant \<^verbatim>\<open>B\<close>.\<close>

theorem registry_outlives_requests_witness:
  "userDatastores (snd (api_process all_ok (Inr (Arr one_tenant)) fresh)) ''A''
     = Some (''datastore-A-0'', ''searchapp-A-1'') \<and>
   Inr ''A'' \<notin> row_key ` set [msg_row ''B'' ''t2'' ''yo''] \<and>
   userDatastores (snd (api_process all_ok (Inr (Arr [msg_row ''B'' ''t2'' ''yo'']))
       (snd (api_process all_ok (Inr (Arr one_tenant)) fresh)))) ''A''
     = Some (''datastore-A-0'', ''searchapp-A-1'')"
proof -
  let ?s1 = "snd (api_process all_ok (Inr (Arr one_tenant)) fresh)"
  let ?second = "api_process all_ok (Inr (Arr [msg_row ''B'' ''t2'' ''yo''])) ?s1"
  have first: "userDatastores ?s1 ''A'' = Some (''datastore-A-0'', ''searchapp-A-1'')"
    by (simp add: one_tenant_def run_defs staging_defs demo_defs)
  have other: "Inr ''A'' \<notin> row_key ` set [msg_row ''B'' ''t2'' ''yo'']"
    by (simp add: row_key_def msg_row_def)
  have "?second = (fst ?second, snd ?second)" by simp
  from registry_outlives_requests[OF this, THEN conjunct2, rule_format, OF refl _ other]
  have "userDatastores (snd ?second) ''A'' = userDatastores ?s1 ''A''" by simp
  with first other show ?thesis by simp
qed

section \<open>The staged file after the step\<close>




section \<open>Records without a string timestamp\<close>

text \<open>
  C10, as the specification states it, fails: a record without a string timestamp does
  not make \<^verbatim>\<open>processInputFile\<close> throw that type error after the two creations whenever it
  is in the batch, because the run may end before it reaches that tenant's staged
  documents. Four batches with such a record: a record whose tenant key is
  \<^verbatim>\<open>constructor\<close> makes the grouping loop throw before any call, with nothing created;
  when the token is denied, the error is the token's and only \<^verbatim>\<open>getToken\<close> was called;
  when the tenant's \<^verbatim>\<open>createDataStore\<close> is refused, the error is the refusal and nothing is
  registered; when the upload of an earlier tenant is refused, the tenant of the record
  is never reached.
\<close>

theorem nonstring_timestamp_not_reached_counterexample:
  "processInputFile all_ok (Inr (Arr [Obj [(''userPhone'', Str ''constructor'')]])) fresh
     = (Inl (TypeError ''userGroups[row.userPhone].push is not a function''), fresh) \<and>
   fst (processInputFile token_denied (Inr (Arr no_timestamp)) fresh) = Inl (Error ''denied'') \<and>
   briefly (trace (snd (processInputFile token_denied (Inr (Arr no_timestamp)) fresh)))
     = [((''getToken'', []), Some (Error ''denied''))] \<and>
   fst (processInputFile (refuses is_CreateDataStore)
          (Inr (Arr [Obj [(''userPhone'', Str ''B''), (''message'', Str ''yo'')]])) fresh)
     = Inl (Error ''refused'') \<and>
   briefly (trace (snd (processInputFile (refuses is_CreateDataStore)
          (Inr (Arr [Obj [(''userPhone'', Str ''B''), (''message'', Str ''yo'')]])) fresh)))
     = [((''getToken'', []), None),
        ((''createDataStore'', ''datastore-B-0''), Some (Error ''refused''))] \<and>
   userDatastores (snd (processInputFile (refuses is_CreateDataStore)
          (Inr (Arr [Obj [(''userPhone'', Str ''B''), (''message'', Str ''yo'')]])) fresh)) ''B'' = None \<and>
   fst (processInputFile (refuses is_Upload) (Inr (Arr no_timestamp)) fresh) = Inl (Error ''refused'') \<and>
   briefly (trace (snd (processInputFile (refuses is_Upload) (Inr (Arr no_timestamp)) fresh)))
     = [((''getToken'', []), None),
        ((''createDataStore'', ''datastore-A-0''), None),
        ((''createSearchApp'', ''searchapp-A-1''), None),
        ((''writeFileSync'', ''/tmp/A-messages.jsonl''), None),
        ((''upload'', ''A/messages.jsonl''), Some (Error ''refused''))]"
  by (simp add: briefly_def no_timestamp_def token_denied_def run_defs staging_defs demo_defs)

text \<open>
  C10, amended. Let the input be grouped and the token fetched. First part: let the
  tenants before \<open>userPhone\<close> complete, let some row of \<open>userPhone\<close> have a timestamp that is
  missing or not a string, and let the two creation calls of \<open>userPhone\<close> succeed. Then
  \<^verbatim>\<open>processInputFile\<close> throws a \<^verbatim>\<open>TypeError\<close>, and the process is left as it was after
  the successful \<^verbatim>\<open>createSearchApp\<close>: datastore and search app created and registered,
  no file written, nothing uploaded or imported, nothing undone. Second part: when
  every row has a string timestamp, building the staged text succeeds for every tenant,
  so this error cannot arise.
\<close>

theorem nonstring_timestamp_throws:
  assumes input: "iterate rawData = Inr rows"
    and grouped: "group_rows [] rows = Inr userGroups"
    and token: "getToken E s = (Inr tok, s0)"
  shows "(\<forall>earlier userPhone later s1 row.
            Object_keys userGroups = earlier @ userPhone # later \<longrightarrow>
            run_tenants E tok userGroups earlier s0 = (Inr (), s1) \<longrightarrow>
            row \<in> set rows \<longrightarrow> row_key row = Inr userPhone \<longrightarrow> \<not> has_string_timestamp row \<longrightarrow>
            outcome E (trace s1)
              (CreateDataStore tok (datastore_id userPhone (now E (ticks s1)))) = None \<longrightarrow>
            outcome E (trace s1 @ [(CreateDataStore tok (datastore_id userPhone (now E (ticks s1))), None)])
              (CreateSearchApp tok (searchapp_id userPhone (now E (Suc (ticks s1))))
                 (datastore_id userPhone (now E (ticks s1)))) = None \<longrightarrow>
            (\<exists>msg. processInputFile E (Inr rawData) s =
               (Inl (TypeError msg),
                s1\<lparr>trace := trace s1 @
                      [(CreateDataStore tok (datastore_id userPhone (now E (ticks s1))), None),
                       (CreateSearchApp tok (searchapp_id userPhone (now E (Suc (ticks s1))))
                          (datastore_id userPhone (now E (ticks s1))), None)],
                    userDatastores := (userDatastores s1)
                      (userPhone \<mapsto> (datastore_id userPhone (now E (ticks s1)),
                                    searchapp_id userPhone (now E (Suc (ticks s1))))),
                    ticks := ticks s1 + 2\<rparr>))) \<and>
         ((\<forall>row \<in> set rows. has_string_timestamp row) \<longrightarrow>
            (\<forall>userPhone \<in> set (Object_keys userGroups).
               \<exists>content. group_content userGroups userPhone = Inr content))"
proof (intro conjI allI impI ballI)
  fix earlier userPhone later and s1 :: state and row
  let ?d = "datastore_id userPhone (now E (ticks s1))"
  let ?a = "searchapp_id userPhone (now E (Suc (ticks s1)))"
  assume keys: "Object_keys userGroups = earlier @ userPhone # later"
    and before: "run_tenants E tok userGroups earlier s0 = (Inr (), s1)"
    and row: "row \<in> set rows" "row_key row = Inr userPhone" "\<not> has_string_timestamp row"
    and o1: "outcome E (trace s1) (CreateDataStore tok ?d) = None"
    and o2: "outcome E (trace s1 @ [(CreateDataStore tok ?d, None)]) (CreateSearchApp tok ?a ?d) = None"
  from keys have "userPhone \<in> set (Object_keys userGroups)" by simp
  from Object_keys_own[OF this] obtain ms where own: "lookup userGroups userPhone = Own ms" by blast
  from group_rows_lookup(1)[OF grouped own] row have "row \<in> set ms" by simp
  with row(3) obtain msg where "staged_lines ms = Inl (TypeError msg)"
    using staged_lines_bad[of row ms] by (auto simp: has_string_timestamp_iff)
  with own have c: "group_content userGroups userPhone = Inl (TypeError msg)"
    by (simp add: group_content_def jsonlContent_def)
  have step: "tenant_step E tok userGroups userPhone s1 =
      (Inl (TypeError msg),
       s1\<lparr>trace := trace s1 @ [(CreateDataStore tok ?d, None), (CreateSearchApp tok ?a ?d, None)],
           userDatastores := (userDatastores s1)(userPhone \<mapsto> (?d, ?a)),
           ticks := ticks s1 + 2\<rparr>)"
    using o1 o2 c
    by (simp add: tenant_step_def createDataStore_def createSearchApp_def Date_now_def Let_def perform_def)
  show "\<exists>msg. processInputFile E (Inr rawData) s =
      (Inl (TypeError msg),
       s1\<lparr>trace := trace s1 @ [(CreateDataStore tok ?d, None), (CreateSearchApp tok ?a ?d, None)],
           userDatastores := (userDatastores s1)(userPhone \<mapsto> (?d, ?a)),
           ticks := ticks s1 + 2\<rparr>)"
    using input grouped token keys before step
    by (intro exI[of _ msg]) (simp add: processInputFile_def run_tenants_append)
next
  fix userPhone
  assume good: "\<forall>row \<in> set rows. has_string_timestamp row"
    and k: "userPhone \<in> set (Object_keys userGroups)"
  from Object_keys_own[OF k] obtain ms where own: "lookup userGroups userPhone = Own ms" by blast
  from group_rows_lookup(1)[OF grouped own] good
  have "\<forall>m \<in> set ms. \<exists>ts. get_prop m ''timestamp'' = Inr (Str ts)"
    by (auto simp: has_string_timestamp_iff)
  from staged_lines_good[OF this] obtain ls where "staged_lines ms = Inr ls" by blast
  with own show "\<exists>content. group_content userGroups userPhone = Inr content"
    by (simp add: group_content_def jsonlContent_def)
qed

text \<open>A second tenant whose only row has no timestamp; and, for the second part, an
  input whose rows all have one.\<close>

theorem nonstring_timestamp_throws_witness:
  "(\<exists>msg. fst (processInputFile all_ok (Inr (Arr no_timestamp)) fresh) = Inl (TypeError msg)) \<and>
   briefly (trace (snd (processInputFile all_ok (Inr (Arr no_timestamp)) fresh)))
     = [((''getToken'', []), None),
        ((''createDataStore'', ''datastore-A-0''), None),
        ((''createSearchApp'', ''searchapp-A-1''), None),
        ((''writeFileSync'', ''/tmp/A-messages.jsonl''), None),
        ((''upload'', ''A/messages.jsonl''), None),
        ((''importData'', ''datastore-A-0''), None),
        ((''unlinkSync'', ''/tmp/A-messages.jsonl''), None),
        ((''createDataStore'', ''datastore-B-2''), None),
        ((''createSearchApp'', ''searchapp-B-3''), None)] \<and>
   (\<exists>content. group_content [(''A'', one_tenant)] ''A'' = Inr content)"
proof -
  let ?bad = "Obj [(''userPhone'', Str ''B''), (''message'', Str ''yo'')]"
  let ?g = "[(''A'', [msg_row ''A'' ''t1'' ''hi'']), (''B'', [?bad])]"
  let ?s0 = "snd (getToken all_ok fresh)"
  let ?s1 = "snd (run_tenants all_ok ''tok'' ?g [''A''] ?s0)"
  have h1: "iterate (Arr no_timestamp) = Inr no_timestamp" by simp
  have h2: "group_rows [] no_timestamp = Inr ?g"
    by (simp add: no_timestamp_def staging_defs demo_defs)
  have h3: "getToken all_ok fresh = (Inr ''tok'', ?s0)"
    by (simp add: getToken_def demo_defs)
  have k: "Object_keys ?g = [''A''] @ ''B'' # []"
    by (simp add: staging_defs)
  have "fst (run_tenants all_ok ''tok'' ?g [''A''] ?s0) = Inr ()"
    by (simp add: run_defs staging_defs demo_defs)
  then have before: "run_tenants all_ok ''tok'' ?g [''A''] ?s0 = (Inr (), ?s1)"
    by (metis prod.collapse)
  have row: "?bad \<in> set no_timestamp" "row_key ?bad = Inr ''B''" "\<not> has_string_timestamp ?bad"
    by (simp_all add: no_timestamp_def row_key_def has_string_timestamp_def)
  have o: "outcome all_ok h c = None" for h c by (simp add: all_ok_def)
  from nonstring_timestamp_throws[OF h1 h2 h3, THEN conjunct1, rule_format, OF k before row o o]
  obtain msg where r: "processInputFile all_ok (Inr (Arr no_timestamp)) fresh =
      (Inl (TypeError msg),
       ?s1\<lparr>trace := trace ?s1 @
            [(CreateDataStore ''tok'' (datastore_id ''B'' (now all_ok (ticks ?s1))), None),
             (CreateSearchApp ''tok'' (searchapp_id ''B'' (now all_ok (Suc (ticks ?s1))))
                (datastore_id ''B'' (now all_ok (ticks ?s1))), None)],
           userDatastores := (userDatastores ?s1)
             (''B'' \<mapsto> (datastore_id ''B'' (now all_ok (ticks ?s1)),
                       searchapp_id ''B'' (now all_ok (Suc (ticks ?s1))))),
           ticks := ticks ?s1 + 2\<rparr>)"
    by blast
  have g1: "group_rows [] one_tenant = Inr [(''A'', one_tenant)]"
    by (simp add: one_tenant_def staging_defs demo_defs)
  have good: "\<forall>row \<in> set one_tenant. has_string_timestamp row"
    by (simp add: one_tenant_def msg_row_def has_string_timestamp_def)
  have k1: "''A'' \<in> set (Object_keys [(''A'', one_tenant)])" by (simp add: staging_defs)
  have "iterate (Arr one_tenant) = Inr one_tenant" by simp
  from nonstring_timestamp_throws[OF this g1 h3, THEN conjunct2, THEN mp, OF good] k1
  have part2: "\<exists>content. group_content [(''A'', one_tenant)] ''A'' = Inr content" by blast
  show ?thesis
    unfolding r using part2 by (simp add: briefly_def run_defs staging_defs demo_defs)
qed

end
